theory Spec2Isabelle
  imports Complex_Main "HOL-Library.Monad_Syntax"
begin

section \<open>Data model\<close>

text \<open>
  Python strings are modelled as \<open>string\<close>, one \<open>char\<close> per code point; the model
  covers the code points below 256, except for the header matcher of the chunker, whose
  lines are lists of arbitrary code points. A Python \<open>set\<close> of strings is represented by a
  list of its elements: membership, size and intersection are read through \<open>set\<close>, so
  nothing proved below depends on the order in which Python would iterate the set.
  A \<open>defaultdict\<close> is a map; reading a missing key stores the default, which the
  model writes out.
\<close>

datatype error = KeyError string

text \<open>The value stored under \<open>chunk_index\<close>: the section's position (an \<open>int\<close>), or the
  dotted string a subdivision writes.\<close>

datatype index_val = IntIdx nat | StrIdx string

record chunk_metadata =
  md_chunk_index :: index_val
  md_section_level :: nat
  md_section_number :: string
  md_section_title :: string
  md_parent_section :: string
  md_start_char :: nat
  md_end_char :: nat
  md_char_count :: nat
  md_word_count :: nat
  md_chunk_type :: string
  md_filename :: string
  md_content_hash :: string
  md_hash_type :: string
  md_sentence_count :: nat
  md_sub_chunk_index :: "nat option"

record sentence_data =
  sd_sentence_index :: nat
  sd_sentence_text :: string
  sd_sentence_hash :: string
  sd_word_count :: nat

text \<open>A chunk dictionary. A key that may be missing is an \<open>option\<close>: \<open>None\<close> is the
  absent key.\<close>

record chunk =
  c_text :: "string option"
  c_content_hash :: "string option"
  c_sentence_hashes :: "sentence_data list option"
  c_metadata :: "chunk_metadata option"

record chunk_ref =
  ref_document_name :: string
  ref_chunk_index :: index_val
  ref_section_number :: string
  ref_section_title :: string
  ref_content :: string
  ref_text_preview :: string
  ref_word_count :: nat
  ref_char_count :: nat

record sentence_ref =
  sref_document_name :: string
  sref_chunk_index :: index_val
  sref_section_number :: string
  sref_section_title :: string
  sref_sentence_index :: nat
  sref_sentence_text :: string
  sref_word_count :: nat

record index_maps =
  hash_to_documents :: "string \<rightharpoonup> chunk_ref list"
  document_to_hashes :: "string \<rightharpoonup> string list"
  sentence_hash_to_documents :: "string \<rightharpoonup> sentence_ref list"
  document_to_sentence_hashes :: "string \<rightharpoonup> string list"

text \<open>The service: the four mappings in memory, and what the persistence file holds
  (\<open>None\<close> while no file has been written). A write is taken to succeed.\<close>

record service =
  maps :: index_maps
  persistence_file :: "index_maps option"

definition empty_maps :: index_maps where
  "empty_maps = \<lparr>hash_to_documents = Map.empty, document_to_hashes = Map.empty,
     sentence_hash_to_documents = Map.empty, document_to_sentence_hashes = Map.empty\<rparr>"

definition empty_service :: service where
  "empty_service = \<lparr>maps = empty_maps, persistence_file = None\<rparr>"

section \<open>Exact-match index\<close>

text \<open>\<open>d[k]\<close> on a \<open>defaultdict(list)\<close> or \<open>defaultdict(set)\<close>: the value read.\<close>

definition dd_value :: "('k \<rightharpoonup> 'v list) \<Rightarrow> 'k \<Rightarrow> 'v list" where
  "dd_value d k = (case d k of None \<Rightarrow> [] | Some v \<Rightarrow> v)"

text \<open>\<open>d[k]\<close> on a \<open>defaultdict\<close>: the dictionary afterwards.\<close>

definition dd_touch :: "('k \<rightharpoonup> 'v list) \<Rightarrow> 'k \<Rightarrow> ('k \<rightharpoonup> 'v list)" where
  "dd_touch d k = (case d k of None \<Rightarrow> d(k \<mapsto> []) | Some v \<Rightarrow> d)"

definition set_len :: "string list \<Rightarrow> nat" where
  "set_len hs = card (set hs)"

definition save_data :: "service \<Rightarrow> service" where
  "save_data s = s\<lparr>persistence_file := Some (maps s)\<rparr>"

definition md_get :: "(chunk_metadata \<Rightarrow> 'a) \<Rightarrow> 'a \<Rightarrow> chunk \<Rightarrow> 'a" where
  "md_get f dflt c = (case c_metadata c of None \<Rightarrow> dflt | Some m \<Rightarrow> f m)"

definition text_preview :: "string \<Rightarrow> string" where
  "text_preview t = (if length t > 100 then take 100 t @ ''...'' else t)"

definition make_chunk_ref :: "string \<Rightarrow> chunk \<Rightarrow> string \<Rightarrow> chunk_ref" where
  "make_chunk_ref document_name c t =
     \<lparr>ref_document_name = document_name,
      ref_chunk_index = md_get md_chunk_index (IntIdx 0) c,
      ref_section_number = md_get md_section_number ''unknown'' c,
      ref_section_title = md_get md_section_title ''unknown'' c,
      ref_content = t,
      ref_text_preview = text_preview t,
      ref_word_count = md_get md_word_count 0 c,
      ref_char_count = md_get md_char_count 0 c\<rparr>"

definition make_sentence_ref :: "string \<Rightarrow> chunk \<Rightarrow> sentence_data \<Rightarrow> sentence_ref" where
  "make_sentence_ref document_name c sd =
     \<lparr>sref_document_name = document_name,
      sref_chunk_index = md_get md_chunk_index (IntIdx 0) c,
      sref_section_number = md_get md_section_number ''unknown'' c,
      sref_section_title = md_get md_section_title ''unknown'' c,
      sref_sentence_index = sd_sentence_index sd,
      sref_sentence_text = sd_sentence_text sd,
      sref_word_count = sd_word_count sd\<rparr>"

text \<open>The two statements that enter a chunk into the section-level mappings.\<close>

definition add_section :: "string \<Rightarrow> string \<Rightarrow> chunk_ref \<Rightarrow> index_maps \<Rightarrow> index_maps" where
  "add_section document_name content_hash r m =
     m\<lparr>hash_to_documents :=
         (hash_to_documents m)(content_hash \<mapsto> dd_value (hash_to_documents m) content_hash @ [r]),
       document_to_hashes :=
         (document_to_hashes m)(document_name \<mapsto>
            List.insert content_hash (dd_value (document_to_hashes m) document_name))\<rparr>"

text \<open>The body of the inner loop over \<open>sentence_hashes\<close>.\<close>

definition add_sentence :: "string \<Rightarrow> chunk \<Rightarrow> sentence_data \<Rightarrow> index_maps \<Rightarrow> index_maps" where
  "add_sentence document_name c sd m =
     (let sentence_hash = sd_sentence_hash sd in
      if sentence_hash = [] then m
      else m\<lparr>sentence_hash_to_documents :=
                (sentence_hash_to_documents m)(sentence_hash \<mapsto>
                   dd_value (sentence_hash_to_documents m) sentence_hash
                     @ [make_sentence_ref document_name c sd]),
              document_to_sentence_hashes :=
                (document_to_sentence_hashes m)(document_name \<mapsto>
                   List.insert sentence_hash
                     (dd_value (document_to_sentence_hashes m) document_name))\<rparr>)"

definition add_sentences :: "string \<Rightarrow> chunk \<Rightarrow> index_maps \<Rightarrow> index_maps" where
  "add_sentences document_name c m =
     fold (add_sentence document_name c)
       (case c_sentence_hashes c of None \<Rightarrow> [] | Some shs \<Rightarrow> shs) m"

text \<open>The loop over the chunks. A chunk without a content hash is skipped; a chunk
  with a hash and no \<open>text\<close> key raises, which ends the loop with the mappings as
  they are at that point.\<close>

fun add_loop :: "string \<Rightarrow> chunk list \<Rightarrow> index_maps \<Rightarrow> error option \<times> index_maps" where
  "add_loop document_name [] m = (None, m)"
| "add_loop document_name (c # cs) m =
     (case c_content_hash c of
        None \<Rightarrow> add_loop document_name cs m
      | Some content_hash \<Rightarrow>
          if content_hash = [] then add_loop document_name cs m
          else (case c_text c of
                  None \<Rightarrow> (Some (KeyError ''text''), m)
                | Some t \<Rightarrow>
                    add_loop document_name cs
                      (add_sentences document_name c
                         (add_section document_name content_hash
                            (make_chunk_ref document_name c t) m))))"

text \<open>\<open>add_document_chunks\<close>: the loop, then the save; the \<open>except\<close> branch logs and
  returns without saving.\<close>

definition add_document_chunks :: "string \<Rightarrow> chunk list \<Rightarrow> service \<Rightarrow> service" where
  "add_document_chunks document_name chunks s =
     (case add_loop document_name chunks (maps s) of
        (None, m) \<Rightarrow> save_data (s\<lparr>maps := m\<rparr>)
      | (Some e, m) \<Rightarrow> s\<lparr>maps := m\<rparr>)"

record match_info =
  mi_content_hash :: string
  mi_matching_documents :: "chunk_ref list"
  mi_total_matches :: nat
  mi_section_info :: "chunk_ref option"

record find_ok =
  fo_document :: string
  fo_total_unique_sections :: nat
  fo_exact_matches :: nat
  fo_matches :: "match_info list"

text \<open>The dictionary \<open>find_exact_matches\<close> returns: the error payload with its
  message and its \<open>matches\<close> list, or the analysis.\<close>

datatype find_result = FindError string "match_info list" | FindOk find_ok

text \<open>The \<open>match_info\<close> dictionary built for one shared hash.\<close>

definition find_match :: "string \<Rightarrow> string \<Rightarrow> chunk_ref list \<Rightarrow> match_info" where
  "find_match document_name content_hash hash_documents =
     \<lparr>mi_content_hash = content_hash,
      mi_matching_documents = filter (\<lambda>d. ref_document_name d \<noteq> document_name) hash_documents,
      mi_total_matches = length hash_documents,
      mi_section_info = find (\<lambda>d. ref_document_name d = document_name) hash_documents\<rparr>"

fun find_loop :: "string \<Rightarrow> string list \<Rightarrow> (string \<rightharpoonup> chunk_ref list) \<Rightarrow> match_info list
    \<Rightarrow> match_info list \<times> (string \<rightharpoonup> chunk_ref list)" where
  "find_loop document_name [] h2d matches = (matches, h2d)"
| "find_loop document_name (content_hash # rest) h2d matches =
     (let hash_documents = dd_value h2d content_hash;
          h2d' = dd_touch h2d content_hash in
      if length hash_documents > 1 then
        (let other_docs = filter (\<lambda>d. ref_document_name d \<noteq> document_name) hash_documents in
         if other_docs \<noteq> [] then
           find_loop document_name rest h2d'
             (matches @ [find_match document_name content_hash hash_documents])
         else find_loop document_name rest h2d' matches)
      else find_loop document_name rest h2d' matches)"

definition find_exact_matches :: "string \<Rightarrow> service \<Rightarrow> find_result \<times> service" where
  "find_exact_matches document_name s =
     (case document_to_hashes (maps s) document_name of
        None \<Rightarrow> (FindError ''Document not found'' [], s)
      | Some document_hashes \<Rightarrow>
          (let (matches, h2d) =
                 find_loop document_name document_hashes (hash_to_documents (maps s)) [] in
           (FindOk \<lparr>fo_document = document_name,
                    fo_total_unique_sections = set_len document_hashes,
                    fo_exact_matches = length matches,
                    fo_matches = matches\<rparr>,
            s\<lparr>maps := (maps s)\<lparr>hash_to_documents := h2d\<rparr>\<rparr>)))"

record compare_match =
  cm_content_hash :: string
  cm_doc1_section :: chunk_ref
  cm_doc2_section :: chunk_ref
  cm_matched_content :: string
  cm_section_title :: string
  cm_section_number :: string
  cm_char_count :: nat
  cm_word_count :: nat

record compare_ok =
  co_doc1 :: string
  co_doc2 :: string
  co_doc1_total_sections :: nat
  co_doc2_total_sections :: nat
  co_common_sections :: nat
  co_exact_match_score :: rat
  co_matches :: "compare_match list"

datatype compare_result = CompareError string | CompareOk compare_ok

text \<open>\<open>doc1_hashes.intersection(doc2_hashes)\<close> on the list representation.\<close>

definition set_intersection :: "string list \<Rightarrow> string list \<Rightarrow> string list" where
  "set_intersection xs ys = filter (\<lambda>h. h \<in> set ys) xs"

fun compare_loop :: "string \<Rightarrow> string \<Rightarrow> string list \<Rightarrow> (string \<rightharpoonup> chunk_ref list)
    \<Rightarrow> compare_match list \<Rightarrow> compare_match list \<times> (string \<rightharpoonup> chunk_ref list)" where
  "compare_loop doc1_name doc2_name [] h2d matches = (matches, h2d)"
| "compare_loop doc1_name doc2_name (content_hash # rest) h2d matches =
     (let hash_documents = dd_value h2d content_hash;
          h2d' = dd_touch h2d content_hash in
      case (find (\<lambda>d. ref_document_name d = doc1_name) hash_documents,
            find (\<lambda>d. ref_document_name d = doc2_name) hash_documents) of
        (Some doc1_match, Some doc2_match) \<Rightarrow>
          compare_loop doc1_name doc2_name rest h2d'
            (matches @ [\<lparr>cm_content_hash = content_hash,
                         cm_doc1_section = doc1_match,
                         cm_doc2_section = doc2_match,
                         cm_matched_content = ref_content doc1_match,
                         cm_section_title = ref_section_title doc1_match,
                         cm_section_number = ref_section_number doc1_match,
                         cm_char_count = ref_char_count doc1_match,
                         cm_word_count = ref_word_count doc1_match\<rparr>])
      | _ \<Rightarrow> compare_loop doc1_name doc2_name rest h2d' matches)"

text \<open>The score is Python's true division of two integers, which is correctly
  rounded; the model keeps the exact quotient.\<close>

definition similarity_score :: "nat \<Rightarrow> nat \<Rightarrow> nat \<Rightarrow> rat" where
  "similarity_score common_total doc1_total doc2_total =
     (if doc1_total + doc2_total > 0
      then of_nat (common_total * 2) / of_nat (doc1_total + doc2_total) else 0)"

definition compare_documents_exact :: "string \<Rightarrow> string \<Rightarrow> service \<Rightarrow> compare_result \<times> service" where
  "compare_documents_exact doc1_name doc2_name s =
     (case (document_to_hashes (maps s) doc1_name, document_to_hashes (maps s) doc2_name) of
        (Some doc1_hashes, Some doc2_hashes) \<Rightarrow>
          (let common_hashes = set_intersection doc1_hashes doc2_hashes;
               (matches, h2d) =
                 compare_loop doc1_name doc2_name common_hashes (hash_to_documents (maps s)) [];
               doc1_total = set_len doc1_hashes;
               doc2_total = set_len doc2_hashes;
               common_total = set_len common_hashes in
           (CompareOk \<lparr>co_doc1 = doc1_name, co_doc2 = doc2_name,
                       co_doc1_total_sections = doc1_total,
                       co_doc2_total_sections = doc2_total,
                       co_common_sections = common_total,
                       co_exact_match_score = similarity_score common_total doc1_total doc2_total,
                       co_matches = matches\<rparr>,
            s\<lparr>maps := (maps s)\<lparr>hash_to_documents := h2d\<rparr>\<rparr>))
      | _ \<Rightarrow> (CompareError ''One or both documents not found'', s))"

record sentence_match =
  sm_sentence_hash :: string
  sm_doc1_sentence :: sentence_ref
  sm_doc2_sentence :: sentence_ref
  sm_matched_sentence :: string
  sm_section_title :: string
  sm_section_number :: string
  sm_sentence_index :: nat

record sentence_compare_ok =
  sc_doc1 :: string
  sc_doc2 :: string
  sc_doc1_total_sentences :: nat
  sc_doc2_total_sentences :: nat
  sc_common_sentences :: nat
  sc_sentence_match_score :: rat
  sc_sentence_matches :: "sentence_match list"

datatype sentence_compare_result =
  SentenceCompareError string | SentenceCompareOk sentence_compare_ok

fun sentence_compare_loop :: "string \<Rightarrow> string \<Rightarrow> string list
    \<Rightarrow> (string \<rightharpoonup> sentence_ref list) \<Rightarrow> sentence_match list
    \<Rightarrow> sentence_match list \<times> (string \<rightharpoonup> sentence_ref list)" where
  "sentence_compare_loop doc1_name doc2_name [] sh2d matches = (matches, sh2d)"
| "sentence_compare_loop doc1_name doc2_name (sentence_hash # rest) sh2d matches =
     (let sentence_documents = dd_value sh2d sentence_hash;
          sh2d' = dd_touch sh2d sentence_hash in
      case (find (\<lambda>d. sref_document_name d = doc1_name) sentence_documents,
            find (\<lambda>d. sref_document_name d = doc2_name) sentence_documents) of
        (Some doc1_match, Some doc2_match) \<Rightarrow>
          sentence_compare_loop doc1_name doc2_name rest sh2d'
            (matches @ [\<lparr>sm_sentence_hash = sentence_hash,
                         sm_doc1_sentence = doc1_match,
                         sm_doc2_sentence = doc2_match,
                         sm_matched_sentence = sref_sentence_text doc1_match,
                         sm_section_title = sref_section_title doc1_match,
                         sm_section_number = sref_section_number doc1_match,
                         sm_sentence_index = sref_sentence_index doc1_match\<rparr>])
      | _ \<Rightarrow> sentence_compare_loop doc1_name doc2_name rest sh2d' matches)"

definition compare_documents_sentence_level :: "string \<Rightarrow> string \<Rightarrow> service
    \<Rightarrow> sentence_compare_result \<times> service" where
  "compare_documents_sentence_level doc1_name doc2_name s =
     (case (document_to_sentence_hashes (maps s) doc1_name,
            document_to_sentence_hashes (maps s) doc2_name) of
        (Some doc1_sentence_hashes, Some doc2_sentence_hashes) \<Rightarrow>
          (let common_sentence_hashes =
                 set_intersection doc1_sentence_hashes doc2_sentence_hashes;
               (sentence_matches, sh2d) =
                 sentence_compare_loop doc1_name doc2_name common_sentence_hashes
                   (sentence_hash_to_documents (maps s)) [];
               doc1_total_sentences = set_len doc1_sentence_hashes;
               doc2_total_sentences = set_len doc2_sentence_hashes;
               common_sentences = set_len common_sentence_hashes in
           (SentenceCompareOk
              \<lparr>sc_doc1 = doc1_name, sc_doc2 = doc2_name,
               sc_doc1_total_sentences = doc1_total_sentences,
               sc_doc2_total_sentences = doc2_total_sentences,
               sc_common_sentences = common_sentences,
               sc_sentence_match_score =
                 similarity_score common_sentences doc1_total_sentences doc2_total_sentences,
               sc_sentence_matches = sentence_matches\<rparr>,
            s\<lparr>maps := (maps s)\<lparr>sentence_hash_to_documents := sh2d\<rparr>\<rparr>))
      | _ \<Rightarrow> (SentenceCompareError ''One or both documents not found'', s))"

text \<open>One round of the loop of \<open>remove_document\<close> over the document's hashes.\<close>

definition remove_step :: "string \<Rightarrow> string \<Rightarrow> (string \<rightharpoonup> chunk_ref list) \<times> nat
    \<Rightarrow> (string \<rightharpoonup> chunk_ref list) \<times> nat" where
  "remove_step document_name content_hash st =
     (case st of (h2d, removed_count) \<Rightarrow>
        (case h2d content_hash of
           None \<Rightarrow> (h2d, removed_count)
         | Some original_docs \<Rightarrow>
             (let kept = filter (\<lambda>d. ref_document_name d \<noteq> document_name) original_docs in
              ((if kept = [] then h2d(content_hash := None) else h2d(content_hash \<mapsto> kept)),
               removed_count + 1))))"

text \<open>\<open>remove_document\<close>: the count returned and the service afterwards. It touches
  neither the sentence-level mappings nor the persistence file.\<close>

definition remove_document :: "string \<Rightarrow> service \<Rightarrow> nat \<times> service" where
  "remove_document document_name s =
     (case document_to_hashes (maps s) document_name of
        None \<Rightarrow> (0, s)
      | Some document_hashes \<Rightarrow>
          (case fold (remove_step document_name) document_hashes (hash_to_documents (maps s), 0) of
             (h2d, removed_count) \<Rightarrow>
               (removed_count,
                s\<lparr>maps := (maps s)\<lparr>hash_to_documents := h2d,
                     document_to_hashes := (document_to_hashes (maps s))(document_name := None)\<rparr>\<rparr>)))"

text \<open>The services that a run of the process can reach from the empty index by the
  operations of the service.\<close>

inductive reachable :: "service \<Rightarrow> bool" where
  reach_empty: "reachable empty_service"
| reach_add: "reachable s \<Longrightarrow> reachable (add_document_chunks document_name chunks s)"
| reach_remove: "reachable s \<Longrightarrow> reachable (snd (remove_document document_name s))"
| reach_find: "reachable s \<Longrightarrow> reachable (snd (find_exact_matches document_name s))"
| reach_compare: "reachable s \<Longrightarrow> reachable (snd (compare_documents_exact doc1_name doc2_name s))"
| reach_compare_sentences:
    "reachable s \<Longrightarrow> reachable (snd (compare_documents_sentence_level doc1_name doc2_name s))"

text \<open>Bidirectional consistency, as the data model states it.\<close>

definition consistent :: "index_maps \<Rightarrow> bool" where
  "consistent m =
     (\<forall>d hs. document_to_hashes m d = Some hs \<longrightarrow>
        (\<forall>h \<in> set hs. \<exists>refs. hash_to_documents m h = Some refs \<and>
           (\<exists>r \<in> set refs. ref_document_name r = d)))"

section \<open>Section chunker: strings\<close>

definition newline :: char where
  "newline = CHR 0x0A"

text \<open>The code points below 256 for which \<open>str.isspace\<close> holds; the class \<open>\s\<close> of
  \<open>re\<close> is the same set.\<close>

definition is_space :: "char \<Rightarrow> bool" where
  "is_space c = (of_char c \<in> {9, 10, 11, 12, 13, 28, 29, 30, 31, 32, 133, 160 :: nat})"

text \<open>\<open>str.lower\<close> on one code point below 256: the letters \<open>A\<close> to \<open>Z\<close> and the
  accented capitals \<open>0xC0\<close> to \<open>0xDE\<close> (without the sign \<open>0xD7\<close>) move up by 32.\<close>

definition lower_char :: "char \<Rightarrow> char" where
  "lower_char c =
     (let n = (of_char c :: nat) in
      if (65 \<le> n \<and> n \<le> 90) \<or> (192 \<le> n \<and> n \<le> 222 \<and> n \<noteq> 215)
      then char_of (n + 32) else c)"

definition lower :: "string \<Rightarrow> string" where
  "lower s = map lower_char s"

definition lstrip :: "string \<Rightarrow> string" where
  "lstrip s = dropWhile is_space s"

definition rstrip :: "string \<Rightarrow> string" where
  "rstrip s = rev (dropWhile is_space (rev s))"

definition strip :: "string \<Rightarrow> string" where
  "strip s = rstrip (lstrip s)"

text \<open>\<open>re.sub(r'\s+', ' ', s)\<close>: every maximal run of whitespace becomes one space.\<close>

function collapse_ws :: "string \<Rightarrow> string" where
  "collapse_ws [] = []"
| "collapse_ws (c # cs) =
     (if is_space c then CHR '' '' # collapse_ws (dropWhile is_space cs)
      else c # collapse_ws cs)"
  by pat_completeness auto
termination
proof (relation "measure length")
  fix c :: char and cs :: string
  have "length (dropWhile is_space cs) \<le> length cs"
    by (rule length_dropWhile_le)
  then show "(dropWhile is_space cs, c # cs) \<in> measure length"
    by simp
qed simp_all

text \<open>Splitting at the leftmost, non-overlapping occurrences of a delimiter, as
  \<open>str.split(sep)\<close> and \<open>re.split\<close> do. \<open>delim s\<close> is the length of the delimiter
  that starts at the head of \<open>s\<close>, or 0 when none does; \<open>piece\<close> holds the characters
  of the current piece, last first.\<close>

fun split_by :: "(string \<Rightarrow> nat) \<Rightarrow> string \<Rightarrow> string \<Rightarrow> string list" where
  "split_by delim piece [] = [rev piece]"
| "split_by delim piece (c # cs) =
     (case delim (c # cs) of
        0 \<Rightarrow> split_by delim (c # piece) cs
      | Suc k \<Rightarrow> rev piece # split_by delim [] (drop k cs))"

text \<open>\<open>text.split('\n')\<close>\<close>

definition delim_newline :: "string \<Rightarrow> nat" where
  "delim_newline s = (case s of c # _ \<Rightarrow> if c = newline then 1 else 0 | [] \<Rightarrow> 0)"

definition split_lines :: "string \<Rightarrow> string list" where
  "split_lines s = split_by delim_newline [] s"

text \<open>\<open>content.split('\n\n')\<close>\<close>

definition delim_blank_line :: "string \<Rightarrow> nat" where
  "delim_blank_line s = (if take 2 s = [newline, newline] then 2 else 0)"

definition split_paragraphs :: "string \<Rightarrow> string list" where
  "split_paragraphs s = split_by delim_blank_line [] s"

definition is_terminator :: "char \<Rightarrow> bool" where
  "is_terminator c = (c = CHR ''.'' \<or> c = CHR ''!'' \<or> c = CHR ''?'')"

text \<open>\<open>re.split(r'[.!?]+', text)\<close>\<close>

definition delim_terminators :: "string \<Rightarrow> nat" where
  "delim_terminators s = length (takeWhile is_terminator s)"

definition split_terminators :: "string \<Rightarrow> string list" where
  "split_terminators s = split_by delim_terminators [] s"

text \<open>\<open>re.split(r'[.!?]+\s+', content)\<close>: a run of terminators counts only when
  whitespace follows it.\<close>

definition delim_sentence_end :: "string \<Rightarrow> nat" where
  "delim_sentence_end s =
     (let p = takeWhile is_terminator s;
          w = takeWhile is_space (dropWhile is_terminator s) in
      if p \<noteq> [] \<and> w \<noteq> [] then length p + length w else 0)"

definition split_sentence_ends :: "string \<Rightarrow> string list" where
  "split_sentence_ends s = split_by delim_sentence_end [] s"

text \<open>\<open>s.split()\<close>: the maximal runs of characters that are not whitespace.\<close>

function words :: "string \<Rightarrow> string list" where
  "words s =
     (case dropWhile is_space s of
        [] \<Rightarrow> []
      | c # cs \<Rightarrow> (c # takeWhile (\<lambda>x. \<not> is_space x) cs)
                    # words (dropWhile (\<lambda>x. \<not> is_space x) cs))"
  by pat_completeness auto
termination
proof (relation "measure length")
  fix s c cs
  assume a: "dropWhile is_space s = c # cs"
  have "length (dropWhile (\<lambda>x. \<not> is_space x) cs) \<le> length cs"
    by (rule length_dropWhile_le)
  also have "length cs < length (dropWhile is_space s)"
    by (simp add: a)
  also have "\<dots> \<le> length s"
    by (rule length_dropWhile_le)
  finally show "(dropWhile (\<lambda>x. \<not> is_space x) cs, s) \<in> measure length"
    by simp
qed simp

text \<open>\<open>sep.join(parts)\<close>\<close>

fun join :: "string \<Rightarrow> string list \<Rightarrow> string" where
  "join sep [] = []"
| "join sep [p] = p"
| "join sep (p # q # ps) = p @ sep @ join sep (q # ps)"

text \<open>The decimal digits of a number, as an f-string writes an \<open>int\<close>.\<close>

fun str_of_nat :: "nat \<Rightarrow> string" where
  "str_of_nat n =
     (if n < 10 then [char_of (48 + n)]
      else str_of_nat (n div 10) @ [char_of (48 + n mod 10)])"

declare str_of_nat.simps [simp del]

definition str_of_index :: "index_val \<Rightarrow> string" where
  "str_of_index v = (case v of IntIdx n \<Rightarrow> str_of_nat n | StrIdx s \<Rightarrow> s)"

section \<open>Section chunker: hashes\<close>

text \<open>The digest \<open>hashlib.sha256(s.encode('utf-8')).hexdigest()\<close> is a function
  of the library; the chunker takes it as the parameter \<open>H\<close>.\<close>

definition normalize_text :: "string \<Rightarrow> string" where
  "normalize_text t = collapse_ws (lower (strip t))"

definition generate_content_hash :: "(string \<Rightarrow> string) \<Rightarrow> string \<Rightarrow> string" where
  "generate_content_hash H t = H (normalize_text t)"

text \<open>The loop of \<open>_generate_sentence_hashes\<close> over the enumerated fragments.\<close>

fun sentence_loop :: "(string \<Rightarrow> string) \<Rightarrow> nat \<Rightarrow> string list \<Rightarrow> sentence_data list" where
  "sentence_loop H i [] = []"
| "sentence_loop H i (fragment # rest) =
     (let sentence = strip fragment in
      if length sentence > 10 then
        \<lparr>sd_sentence_index = i,
         sd_sentence_text = sentence,
         sd_sentence_hash = H (collapse_ws (strip (lower sentence))),
         sd_word_count = length (words sentence)\<rparr> # sentence_loop H (Suc i) rest
      else sentence_loop H (Suc i) rest)"

definition generate_sentence_hashes :: "(string \<Rightarrow> string) \<Rightarrow> string \<Rightarrow> sentence_data list" where
  "generate_sentence_hashes H t = sentence_loop H 0 (split_terminators t)"

section \<open>Section chunker: header patterns\<close>

text \<open>\<open>re.IGNORECASE\<close> reaches beyond the code points below 256: the letter classes of
  the patterns also hold \<open>U+0130\<close>, \<open>U+0131\<close>, \<open>U+017F\<close> and \<open>U+212A\<close>, and \<open>\d\<close> and
  \<open>\s\<close> hold the decimal digits and the whitespace of every script. The header
  matcher is therefore modelled over all code points: a line is the list of its code
  points, each a natural number. (The tables are those of Unicode 14.0.)\<close>

type_synonym code_points = "nat list"

abbreviation cp :: "char \<Rightarrow> nat" where
  "cp c \<equiv> of_char c"

definition code_points_of :: "string \<Rightarrow> code_points" where
  "code_points_of s = map cp s"

definition string_of :: "code_points \<Rightarrow> string" where
  "string_of u = map char_of u"

text \<open>The class \<open>\s\<close>, which is also the set that \<open>str.strip\<close> removes.\<close>

definition is_unicode_space :: "nat \<Rightarrow> bool" where
  "is_unicode_space n =
     ((9 \<le> n \<and> n \<le> 13) \<or> (28 \<le> n \<and> n \<le> 32) \<or> n = 133 \<or> n = 160 \<or> n = 5760 \<or>
      (8192 \<le> n \<and> n \<le> 8202) \<or> n = 8232 \<or> n = 8233 \<or> n = 8239 \<or> n = 8287 \<or> n = 12288)"

text \<open>The class \<open>\d\<close>: the decimal digits (category \<open>Nd\<close>) come in runs of ten, from
  the zero to the nine of a script; \<open>decimal_zeros\<close> lists the zeros.\<close>

definition decimal_zeros :: "nat list" where
  "decimal_zeros =
     [48, 1632, 1776, 1984, 2406, 2534, 2662, 2790, 2918, 3046, 3174, 3302, 3430, 3558,
      3664, 3792, 3872, 4160, 4240, 6112, 6160, 6470, 6608, 6784, 6800, 6992, 7088, 7232,
      7248, 42528, 43216, 43264, 43472, 43504, 43600, 44016, 65296, 66720, 68912, 69734,
      69872, 69942, 70096, 70384, 70736, 70864, 71248, 71360, 71472, 71904, 72016, 72784,
      73040, 73120, 92768, 92864, 93008, 120782, 120792, 120802, 120812, 120822, 123200,
      123632, 125264, 130032]"

definition is_digit :: "nat \<Rightarrow> bool" where
  "is_digit n = list_ex (\<lambda>z. z \<le> n \<and> n < z + 10) decimal_zeros"

text \<open>The classes \<open>[A-Z]\<close> and \<open>[a-z]\<close>, as \<open>_determine_section_level\<close> matches them.\<close>

definition is_upper_az :: "nat \<Rightarrow> bool" where
  "is_upper_az n = (65 \<le> n \<and> n \<le> 90)"

definition is_lower_az :: "nat \<Rightarrow> bool" where
  "is_lower_az n = (97 \<le> n \<and> n \<le> 122)"

text \<open>The code points that match the letter \<open>x\<close> of a pattern under \<open>re.IGNORECASE\<close>:
  the letter in both cases and, for \<open>i\<close>, \<open>s\<close> and \<open>k\<close>, the letters that fold to it
  (\<open>U+0130\<close> and \<open>U+0131\<close>, \<open>U+017F\<close>, \<open>U+212A\<close>).\<close>

definition ignorecase :: "char \<Rightarrow> nat list" where
  "ignorecase x =
     (let l = (if is_upper_az (cp x) then cp x + 32 else cp x) in
      if \<not> is_lower_az l then [cp x]
      else [l - 32, l] @
        (if l = cp CHR ''i'' then [304, 305]
         else if l = cp CHR ''s'' then [383]
         else if l = cp CHR ''k'' then [8490]
         else []))"

text \<open>\<open>[A-Z]\<close> and \<open>[a-z]\<close> under \<open>re.IGNORECASE\<close>: the same class.\<close>

definition is_letter :: "nat \<Rightarrow> bool" where
  "is_letter n = (is_upper_az n \<or> is_lower_az n \<or> n = 304 \<or> n = 305 \<or> n = 383 \<or> n = 8490)"

text \<open>\<open>[IVX]\<close> under \<open>re.IGNORECASE\<close>.\<close>

definition is_roman :: "nat \<Rightarrow> bool" where
  "is_roman n = (n \<in> set (ignorecase CHR ''I'' @ ignorecase CHR ''V'' @ ignorecase CHR ''X''))"

definition unicode_strip :: "code_points \<Rightarrow> code_points" where
  "unicode_strip u = rev (dropWhile is_unicode_space (rev (dropWhile is_unicode_space u)))"

text \<open>Every pattern ends in \<open>\s+(.+)\<close>. The whitespace run is greedy and gives
  characters back, one at a time, until \<open>(.+)\<close> matches: at least one character, none
  of them a newline, as many as there are. \<open>title_from k r\<close> tries the runs of \<open>k\<close>
  down to 1 whitespace characters at the head of \<open>r\<close> and returns group 2.\<close>

fun title_from :: "nat \<Rightarrow> code_points \<Rightarrow> code_points option" where
  "title_from 0 r = None"
| "title_from (Suc k) r =
     (case takeWhile (\<lambda>c. c \<noteq> cp newline) (drop (Suc k) r) of
        [] \<Rightarrow> title_from k r
      | t \<Rightarrow> Some t)"

definition ws_title :: "code_points \<Rightarrow> code_points option" where
  "ws_title r = title_from (length (takeWhile is_unicode_space r)) r"

text \<open>\<open>\d+\<close> at the head: the digits and the rest.\<close>

definition scan_digits :: "code_points \<Rightarrow> (code_points \<times> code_points) option" where
  "scan_digits s =
     (if takeWhile is_digit s = [] then None
      else Some (takeWhile is_digit s, dropWhile is_digit s))"

text \<open>One given character at the head.\<close>

definition expect :: "char \<Rightarrow> code_points \<Rightarrow> code_points option" where
  "expect x s = (case s of c # cs \<Rightarrow> if c = cp x then Some cs else None | [] \<Rightarrow> None)"

text \<open>An optional character at the head (\<open>\.?\<close>, \<open>:?\<close>): taken when it is there.\<close>

definition optional :: "char \<Rightarrow> code_points \<Rightarrow> code_points" where
  "optional x s = (case s of c # cs \<Rightarrow> if c = cp x then cs else s | [] \<Rightarrow> s)"

text \<open>\<open>^(\d+)\.\s+(.+)\<close>\<close>

definition pat_numbered :: "code_points \<Rightarrow> (code_points \<times> code_points) option" where
  "pat_numbered line = do {
     (a, r) \<leftarrow> scan_digits line;
     r \<leftarrow> expect CHR ''.'' r;
     t \<leftarrow> ws_title r;
     Some (a, t) }"

text \<open>\<open>^(\d+\.\d+)\.?\s+(.+)\<close>\<close>

definition pat_subsection :: "code_points \<Rightarrow> (code_points \<times> code_points) option" where
  "pat_subsection line = do {
     (a, r) \<leftarrow> scan_digits line;
     r \<leftarrow> expect CHR ''.'' r;
     (b, r) \<leftarrow> scan_digits r;
     t \<leftarrow> ws_title (optional CHR ''.'' r);
     Some (a @ [cp CHR ''.''] @ b, t) }"

text \<open>\<open>^(\d+\.\d+\.\d+)\.?\s+(.+)\<close>\<close>

definition pat_subsubsection :: "code_points \<Rightarrow> (code_points \<times> code_points) option" where
  "pat_subsubsection line = do {
     (a, r) \<leftarrow> scan_digits line;
     r \<leftarrow> expect CHR ''.'' r;
     (b, r) \<leftarrow> scan_digits r;
     r \<leftarrow> expect CHR ''.'' r;
     (c, r) \<leftarrow> scan_digits r;
     t \<leftarrow> ws_title (optional CHR ''.'' r);
     Some (a @ [cp CHR ''.''] @ b @ [cp CHR ''.''] @ c, t) }"

text \<open>\<open>^([A-Z])\.\s+(.+)\<close>, matched with \<open>re.IGNORECASE\<close>.\<close>

definition pat_letter :: "code_points \<Rightarrow> (code_points \<times> code_points) option" where
  "pat_letter line =
     (case line of
        [] \<Rightarrow> None
      | c # r \<Rightarrow>
          if is_letter c then do {
            r \<leftarrow> expect CHR ''.'' r;
            t \<leftarrow> ws_title r;
            Some ([c], t) }
          else None)"

text \<open>\<open>^([IVX]+)\.\s+(.+)\<close>, matched with \<open>re.IGNORECASE\<close>.\<close>

definition pat_roman :: "code_points \<Rightarrow> (code_points \<times> code_points) option" where
  "pat_roman line =
     (if takeWhile is_roman line = [] then None
      else do {
        r \<leftarrow> expect CHR ''.'' (dropWhile is_roman line);
        t \<leftarrow> ws_title r;
        Some (takeWhile is_roman line, t) })"

text \<open>\<open>^Section\s+(\d+):?\s+(.+)\<close> and \<open>^SECTION\s+(\d+):?\s+(.+)\<close>: with
  \<open>re.IGNORECASE\<close> the two patterns match the same lines. \<open>matches_word w u\<close> holds when
  the code points \<open>u\<close> match the word \<open>w\<close> of the pattern, letter by letter.\<close>

definition matches_word :: "string \<Rightarrow> code_points \<Rightarrow> bool" where
  "matches_word w u = list_all2 (\<lambda>x c. c \<in> set (ignorecase x)) w u"

definition pat_section_word :: "code_points \<Rightarrow> (code_points \<times> code_points) option" where
  "pat_section_word line =
     (if matches_word ''Section'' (take 7 line) \<and> takeWhile is_unicode_space (drop 7 line) \<noteq> [] then do {
        (a, r) \<leftarrow> scan_digits (dropWhile is_unicode_space (drop 7 line));
        t \<leftarrow> ws_title (optional CHR '':'' r);
        Some (a, t) }
      else None)"

text \<open>\<open>^(\d+)\)\s+(.+)\<close>\<close>

definition pat_paren_number :: "code_points \<Rightarrow> (code_points \<times> code_points) option" where
  "pat_paren_number line = do {
     (a, r) \<leftarrow> scan_digits line;
     r \<leftarrow> expect CHR '')'' r;
     t \<leftarrow> ws_title r;
     Some (a, t) }"

text \<open>\<open>^([a-z])\)\s+(.+)\<close>, matched with \<open>re.IGNORECASE\<close>.\<close>

definition pat_paren_letter :: "code_points \<Rightarrow> (code_points \<times> code_points) option" where
  "pat_paren_letter line =
     (case line of
        [] \<Rightarrow> None
      | c # r \<Rightarrow>
          if is_letter c then do {
            r \<leftarrow> expect CHR '')'' r;
            t \<leftarrow> ws_title r;
            Some ([c], t) }
          else None)"

definition section_patterns :: "(code_points \<Rightarrow> (code_points \<times> code_points) option) list" where
  "section_patterns =
     [pat_numbered, pat_subsection, pat_subsubsection, pat_letter, pat_roman,
      pat_section_word, pat_section_word, pat_paren_number, pat_paren_letter]"

text \<open>\<open>$\<close> matches at the end of the string and before a newline that ends it.\<close>

definition at_end :: "code_points \<Rightarrow> bool" where
  "at_end r = (r = [] \<or> r = [cp newline])"

text \<open>\<open>^\d+$\<close>\<close>

definition shape_int :: "code_points \<Rightarrow> bool" where
  "shape_int n = (case scan_digits n of Some (a, r) \<Rightarrow> at_end r | None \<Rightarrow> False)"

text \<open>\<open>^\d+\.\d+$\<close>\<close>

definition shape_dec2 :: "code_points \<Rightarrow> bool" where
  "shape_dec2 n =
     (case do { (a, r) \<leftarrow> scan_digits n; r \<leftarrow> expect CHR ''.'' r; scan_digits r } of
        Some (b, r) \<Rightarrow> at_end r | None \<Rightarrow> False)"

text \<open>\<open>^\d+\.\d+\.\d+$\<close>\<close>

definition shape_dec3 :: "code_points \<Rightarrow> bool" where
  "shape_dec3 n =
     (case do { (a, r) \<leftarrow> scan_digits n; r \<leftarrow> expect CHR ''.'' r;
                (b, r) \<leftarrow> scan_digits r; r \<leftarrow> expect CHR ''.'' r; scan_digits r } of
        Some (c, r) \<Rightarrow> at_end r | None \<Rightarrow> False)"

text \<open>\<open>^[A-Z]$\<close>, \<open>^[IVX]+$\<close> and \<open>^[a-z]$\<close>; \<open>_determine_section_level\<close> matches
  without \<open>re.IGNORECASE\<close>.\<close>

definition shape_upper :: "code_points \<Rightarrow> bool" where
  "shape_upper n = (case n of c # r \<Rightarrow> is_upper_az c \<and> at_end r | [] \<Rightarrow> False)"

definition is_upper_roman :: "nat \<Rightarrow> bool" where
  "is_upper_roman n = (n \<in> set (code_points_of ''IVX''))"

definition shape_roman :: "code_points \<Rightarrow> bool" where
  "shape_roman n =
     (takeWhile is_upper_roman n \<noteq> [] \<and> at_end (dropWhile is_upper_roman n))"

definition shape_lower :: "code_points \<Rightarrow> bool" where
  "shape_lower n = (case n of c # r \<Rightarrow> is_lower_az c \<and> at_end r | [] \<Rightarrow> False)"

definition determine_section_level :: "code_points \<Rightarrow> nat" where
  "determine_section_level number =
     (if shape_int number then 1
      else if shape_dec2 number then 2
      else if shape_dec3 number then 3
      else if shape_upper number then 1
      else if shape_roman number then 1
      else if shape_lower number then 2
      else 1)"

text \<open>The class \<open>[\d\s\.\-_]\<close>.\<close>

definition is_filler :: "nat \<Rightarrow> bool" where
  "is_filler c =
     (is_digit c \<or> is_unicode_space c \<or> c = cp CHR ''.'' \<or> c = cp CHR ''-'' \<or> c = cp CHR ''_'')"

definition is_valid_section :: "code_points \<Rightarrow> bool" where
  "is_valid_section title =
     (if length (unicode_strip title) < 2 then False
      else if length title > 100 then False
      else if title \<noteq> [] \<and> (\<forall>c \<in> set title. is_filler c) then False
      else True)"

text \<open>The loop of \<open>_match_section_header\<close> over the patterns: the first pattern
  that matches with a valid title wins.\<close>

fun match_first :: "(code_points \<Rightarrow> (code_points \<times> code_points) option) list \<Rightarrow> code_points
    \<Rightarrow> (nat \<times> code_points \<times> code_points) option" where
  "match_first [] line = None"
| "match_first (pattern # rest) line =
     (case pattern line of
        None \<Rightarrow> match_first rest line
      | Some (number, g2) \<Rightarrow>
          (let title = unicode_strip g2;
               level = determine_section_level number in
           if is_valid_section title then Some (level, number, title)
           else match_first rest line))"

definition match_section_header :: "code_points \<Rightarrow> (nat \<times> code_points \<times> code_points) option" where
  "match_section_header line = match_first section_patterns line"

section \<open>Section chunker: sections\<close>

record Section =
  sec_level :: nat
  sec_number :: string
  sec_title :: string
  sec_content :: string
  sec_start_pos :: nat
  sec_end_pos :: nat
  sec_parent_section :: "string option"

definition delim_dot :: "string \<Rightarrow> nat" where
  "delim_dot s = (case s of c # _ \<Rightarrow> if c = CHR ''.'' then 1 else 0 | [] \<Rightarrow> 0)"

definition find_parent_section :: "string \<Rightarrow> Section list \<Rightarrow> string option" where
  "find_parent_section number existing_sections =
     (if CHR ''.'' \<in> set number \<and> number \<noteq> ''auto'' then
        (let parts = split_by delim_dot [] number in
         if length parts > 1 then
           (let parent_number = join ''.'' (butlast parts) in
            if \<exists>s \<in> set existing_sections. sec_number s = parent_number
            then Some parent_number else None)
         else None)
      else None)"

definition get_text_position :: "string \<Rightarrow> nat \<Rightarrow> nat" where
  "get_text_position t line_index =
     (let lines = split_lines t in
      sum_list (map (\<lambda>l. length l + 1) (take (min line_index (length lines)) lines)))"

text \<open>The state of the loop of \<open>detect_sections\<close>: the sections closed so far, the
  open section, and the buffered lines of its body.\<close>

type_synonym detect_state = "Section list \<times> Section option \<times> string list"

definition close_section :: "Section \<Rightarrow> string list \<Rightarrow> nat \<Rightarrow> Section" where
  "close_section current content_buffer end_pos =
     current\<lparr>sec_content := strip (join [newline] content_buffer), sec_end_pos := end_pos\<rparr>"

text \<open>One turn of the loop. The text of a document is a string of code points below
  256; a stripped line goes to the header matcher as the list of its code points, and
  the number and the title that the matcher returns, which are parts of that line, come
  back as strings.\<close>

definition detect_step :: "string \<Rightarrow> detect_state \<Rightarrow> nat \<times> string \<Rightarrow> detect_state" where
  "detect_step t st il =
     (case (st, il) of ((sections, current_section, content_buffer), (i, line)) \<Rightarrow>
        (let line_stripped = strip line;
             section_match =
               (if line_stripped \<noteq> []
                then match_section_header (code_points_of line_stripped) else None) in
         case section_match of
           Some (level, number, title) \<Rightarrow>
             (let sections' =
                    (case current_section of
                       Some current \<Rightarrow>
                         sections @ [close_section current content_buffer (get_text_position t i)]
                     | None \<Rightarrow> sections) in
              (sections',
               Some \<lparr>sec_level = level, sec_number = string_of number,
                     sec_title = string_of title,
                     sec_content = [], sec_start_pos = get_text_position t i, sec_end_pos = 0,
                     sec_parent_section = find_parent_section (string_of number) sections'\<rparr>,
               []))
         | None \<Rightarrow>
             (case current_section of
                Some current \<Rightarrow> (sections, current_section, content_buffer @ [line_stripped])
              | None \<Rightarrow> (sections, current_section, content_buffer))))"

definition detect_sections :: "string \<Rightarrow> Section list" where
  "detect_sections t =
     (case foldl (detect_step t) ([], None, []) (enumerate 0 (split_lines t)) of
        (sections, current_section, content_buffer) \<Rightarrow>
          (let sections' =
                 (case current_section of
                    Some current \<Rightarrow> sections @ [close_section current content_buffer (length t)]
                  | None \<Rightarrow> sections) in
           if sections' = [] then
             [\<lparr>sec_level = 1, sec_number = ''1'', sec_title = ''Document Content'',
               sec_content = strip t, sec_start_pos = 0, sec_end_pos = length t,
               sec_parent_section = None\<rparr>]
           else sections'))"

section \<open>Section chunker: chunks\<close>

definition section_chunk :: "(string \<Rightarrow> string) \<Rightarrow> string \<Rightarrow> nat \<Rightarrow> Section \<Rightarrow> chunk" where
  "section_chunk H filename i s =
     (let content_hash = generate_content_hash H (sec_content s);
          sentence_hashes = generate_sentence_hashes H (sec_content s) in
      \<lparr>c_text = Some (sec_content s),
       c_content_hash = Some content_hash,
       c_sentence_hashes = Some sentence_hashes,
       c_metadata = Some
         \<lparr>md_chunk_index = IntIdx i,
          md_section_level = sec_level s,
          md_section_number = sec_number s,
          md_section_title = sec_title s,
          md_parent_section =
            (case sec_parent_section s of
               None \<Rightarrow> ''none''
             | Some p \<Rightarrow> if p = [] then ''none'' else p),
          md_start_char = sec_start_pos s,
          md_end_char = sec_end_pos s,
          md_char_count = length (sec_content s),
          md_word_count = (if sec_content s \<noteq> [] then length (words (sec_content s)) else 0),
          md_chunk_type = ''section_based'',
          md_filename = filename,
          md_content_hash = content_hash,
          md_hash_type = ''content'',
          md_sentence_count = length sentence_hashes,
          md_sub_chunk_index = None\<rparr>\<rparr>)"

text \<open>The first loop of \<open>create_section_chunks\<close>: sections whose trimmed content is
  shorter than 50 characters are skipped; the index counts them all the same.\<close>

fun build_chunks :: "(string \<Rightarrow> string) \<Rightarrow> string \<Rightarrow> (nat \<times> Section) list \<Rightarrow> chunk list" where
  "build_chunks H filename [] = []"
| "build_chunks H filename ((i, s) # rest) =
     (if length (strip (sec_content s)) < 50 then build_chunks H filename rest
      else section_chunk H filename i s # build_chunks H filename rest)"

text \<open>The greedy packing of sentences into paragraphs of under 1000 characters.\<close>

fun pack_sentences :: "string list \<Rightarrow> string \<Rightarrow> string list \<Rightarrow> string list" where
  "pack_sentences [] current_para paragraphs =
     (if current_para \<noteq> [] then paragraphs @ [strip current_para] else paragraphs)"
| "pack_sentences (sentence # rest) current_para paragraphs =
     (if length (current_para @ sentence) < 1000
      then pack_sentences rest (current_para @ sentence @ ''. '') paragraphs
      else pack_sentences rest (sentence @ ''. '')
             (if current_para \<noteq> [] then paragraphs @ [strip current_para] else paragraphs))"

definition sub_paragraphs :: "string \<Rightarrow> string list" where
  "sub_paragraphs content =
     (let paragraphs = filter (\<lambda>p. p \<noteq> []) (map strip (split_paragraphs content)) in
      if length paragraphs \<le> 1 then pack_sentences (split_sentence_ends content) [] []
      else paragraphs)"

definition sub_chunk :: "(string \<Rightarrow> string) \<Rightarrow> chunk_metadata \<Rightarrow> nat \<Rightarrow> string \<Rightarrow> chunk" where
  "sub_chunk H metadata i para =
     (let sub_content_hash = generate_content_hash H para in
      \<lparr>c_text = Some para,
       c_content_hash = Some sub_content_hash,
       c_sentence_hashes = None,
       c_metadata = Some
         (metadata\<lparr>md_chunk_index :=
                      StrIdx (str_of_index (md_chunk_index metadata) @ ''.'' @ str_of_nat i),
                    md_sub_chunk_index := Some i,
                    md_char_count := length para,
                    md_word_count := length (words para),
                    md_chunk_type := ''section_subdivision'',
                    md_content_hash := sub_content_hash,
                    md_hash_type := ''content''\<rparr>)\<rparr>)"

text \<open>The loop over the enumerated paragraphs: those shorter than 30 characters are
  skipped.\<close>

fun sub_chunks_loop :: "(string \<Rightarrow> string) \<Rightarrow> chunk_metadata \<Rightarrow> (nat \<times> string) list
    \<Rightarrow> chunk list" where
  "sub_chunks_loop H metadata [] = []"
| "sub_chunks_loop H metadata ((i, para) # rest) =
     (if length (strip para) < 30 then sub_chunks_loop H metadata rest
      else sub_chunk H metadata i para # sub_chunks_loop H metadata rest)"

definition subdivide_large_section :: "(string \<Rightarrow> string) \<Rightarrow> chunk \<Rightarrow> error + chunk list" where
  "subdivide_large_section H c =
     (case c_text c of
        None \<Rightarrow> Inl (KeyError ''text'')
      | Some content \<Rightarrow>
          (case c_metadata c of
             None \<Rightarrow> Inl (KeyError ''metadata'')
           | Some metadata \<Rightarrow>
               (let sub_chunks =
                      sub_chunks_loop H metadata (enumerate 0 (sub_paragraphs content)) in
                Inr (if sub_chunks \<noteq> [] then sub_chunks else [c]))))"

text \<open>The second loop of \<open>create_section_chunks\<close>.\<close>

fun refine_chunks :: "(string \<Rightarrow> string) \<Rightarrow> chunk list \<Rightarrow> error + chunk list" where
  "refine_chunks H [] = Inr []"
| "refine_chunks H (c # rest) =
     (case c_metadata c of
        None \<Rightarrow> Inl (KeyError ''metadata'')
      | Some metadata \<Rightarrow>
          (if md_char_count metadata > 2000 then
             (case subdivide_large_section H c of
                Inl e \<Rightarrow> Inl e
              | Inr sub_chunks \<Rightarrow>
                  (case refine_chunks H rest of
                     Inl e \<Rightarrow> Inl e
                   | Inr refined \<Rightarrow> Inr (sub_chunks @ refined)))
           else
             (case refine_chunks H rest of
                Inl e \<Rightarrow> Inl e
              | Inr refined \<Rightarrow> Inr (c # refined))))"

definition create_section_chunks :: "(string \<Rightarrow> string) \<Rightarrow> string \<Rightarrow> string
    \<Rightarrow> error + chunk list" where
  "create_section_chunks H t filename =
     refine_chunks H (build_chunks H filename (enumerate 0 (detect_sections t)))"

section \<open>Predicates used in the statements\<close>

text \<open>A string with no whitespace at either end.\<close>

definition trimmed :: "string \<Rightarrow> bool" where
  "trimmed s = (s = [] \<or> (\<not> is_space (hd s) \<and> \<not> is_space (last s)))"

text \<open>A non-empty string of decimal digits.\<close>

definition digits :: "code_points \<Rightarrow> bool" where
  "digits n = (n \<noteq> [] \<and> list_all is_digit n)"

text \<open>Two, and three, groups of digits joined by dots.\<close>

definition dotted2 :: "code_points \<Rightarrow> bool" where
  "dotted2 n = (\<exists>a b. n = a @ [cp CHR ''.''] @ b \<and> digits a \<and> digits b)"

definition dotted3 :: "code_points \<Rightarrow> bool" where
  "dotted3 n =
     (\<exists>a b c. n = a @ [cp CHR ''.''] @ b @ [cp CHR ''.''] @ c \<and> digits a \<and> digits b \<and> digits c)"

text \<open>The four letters outside \<open>A\<close> to \<open>Z\<close> and \<open>a\<close> to \<open>z\<close> that the letter patterns
  accept under \<open>re.IGNORECASE\<close>: \<open>U+0130\<close>, \<open>U+0131\<close>, \<open>U+017F\<close> and \<open>U+212A\<close>.\<close>

definition is_folded_letter :: "nat \<Rightarrow> bool" where
  "is_folded_letter n = (n = 304 \<or> n = 305 \<or> n = 383 \<or> n = 8490)"

text \<open>A toy digest for the examples: any function of the normalized text serves.\<close>

definition toy_digest :: "string \<Rightarrow> string" where
  "toy_digest s = CHR ''#'' # s"

text \<open>A line that \<open>detect_sections\<close> does not take for a header: it is blank, or no
  pattern accepts it. A text is headerless when all its lines are such.\<close>

definition no_header_line :: "string \<Rightarrow> bool" where
  "no_header_line line = (strip line = [] \<or> match_section_header (code_points_of (strip line)) = None)"

definition headerless :: "string \<Rightarrow> bool" where
  "headerless t = list_all no_header_line (split_lines t)"

text \<open>The single section that \<open>detect_sections\<close> makes of a text without headers.\<close>

definition document_content_section :: "string \<Rightarrow> Section" where
  "document_content_section t =
     \<lparr>sec_level = 1, sec_number = ''1'', sec_title = ''Document Content'',
      sec_content = strip t, sec_start_pos = 0, sec_end_pos = length t,
      sec_parent_section = None\<rparr>"

text \<open>The chunks a call returned; none when it raised.\<close>

definition chunks_of :: "error + chunk list \<Rightarrow> chunk list" where
  "chunks_of r = (case r of Inl e \<Rightarrow> [] | Inr cs \<Rightarrow> cs)"

text \<open>The positions of the pieces that a subdivision keeps: those of at least 30
  characters.\<close>

definition kept_positions :: "string list \<Rightarrow> nat list" where
  "kept_positions ps = filter (\<lambda>k. 30 \<le> length (strip (ps ! k))) [0..<length ps]"

text \<open>The converse of bidirectional consistency: every reference listed under a hash
  names a document whose entry in \<open>document_to_hashes\<close> holds that hash.\<close>

definition covered :: "index_maps \<Rightarrow> bool" where
  "covered m =
     (\<forall>h refs. hash_to_documents m h = Some refs \<longrightarrow>
        (\<forall>r \<in> set refs. \<exists>hs. document_to_hashes m (ref_document_name r) = Some hs \<and> h \<in> set hs))"

section \<open>Example data\<close>

definition demo_chunk :: "string \<Rightarrow> string \<Rightarrow> sentence_data list option \<Rightarrow> chunk" where
  "demo_chunk t h shs =
     \<lparr>c_text = Some t, c_content_hash = Some h, c_sentence_hashes = shs, c_metadata = None\<rparr>"

definition demo_sentence :: "string \<Rightarrow> string \<Rightarrow> sentence_data" where
  "demo_sentence t h =
     \<lparr>sd_sentence_index = 0, sd_sentence_text = t, sd_sentence_hash = h, sd_word_count = 2\<rparr>"

text \<open>Document \<open>A\<close> with one section holding one sentence, added to the empty index.\<close>

definition demo_service :: service where
  "demo_service =
     add_document_chunks ''A''
       [demo_chunk ''alpha beta'' ''h1'' (Some [demo_sentence ''alpha beta'' ''s1''])]
       empty_service"

text \<open>Document \<open>B\<close> added next: it shares the section \<open>h1\<close> with \<open>A\<close>.\<close>

definition demo_pair :: service where
  "demo_pair =
     add_document_chunks ''B''
       [demo_chunk ''alpha beta'' ''h1'' None, demo_chunk ''gamma'' ''h2'' None] demo_service"

text \<open>A line of \<open>n\<close> asterisks.\<close>

definition stars :: "nat \<Rightarrow> string" where
  "stars n = replicate n CHR ''*''"

text \<open>Two paragraphs of \<open>n\<close> asterisks with a blank line between them.\<close>

definition two_paragraphs :: "nat \<Rightarrow> string" where
  "two_paragraphs n = stars n @ [newline, newline] @ stars n"

text \<open>A short paragraph holding one sentence, and a text of \<open>n + 1\<close> such paragraphs
  separated by blank lines.\<close>

definition short_paragraph :: string where
  "short_paragraph = ''- tighten all bolts.''"

definition short_paragraphs :: "nat \<Rightarrow> string" where
  "short_paragraphs n =
     short_paragraph @ concat (replicate n (newline # newline # short_paragraph))"

definition demo_metadata :: chunk_metadata where
  "demo_metadata =
     \<lparr>md_chunk_index = IntIdx 3, md_section_level = 1, md_section_number = ''4'',
      md_section_title = ''Procedure'', md_parent_section = ''none'', md_start_char = 0,
      md_end_char = 0, md_char_count = 0, md_word_count = 0,
      md_chunk_type = ''section_based'', md_filename = ''sop.txt'', md_content_hash = [],
      md_hash_type = ''content'', md_sentence_count = 0, md_sub_chunk_index = None\<rparr>"

text \<open>A chunk whose text is two paragraphs of 40 asterisks.\<close>

definition demo_two_chunk :: chunk where
  "demo_two_chunk =
     \<lparr>c_text = Some (two_paragraphs 40), c_content_hash = Some ''h0'',
      c_sentence_hashes = Some [], c_metadata = Some demo_metadata\<rparr>"

section \<open>Properties of the exact-match index\<close>

lemmas index_defs = add_document_chunks_def save_data_def add_section_def add_sentences_def
  add_sentence_def make_chunk_ref_def make_sentence_ref_def md_get_def text_preview_def
  dd_value_def dd_touch_def empty_service_def empty_maps_def remove_document_def
  remove_step_def find_exact_matches_def find_match_def demo_chunk_def demo_sentence_def
  demo_service_def demo_pair_def Let_def

lemma demo_service_A: "document_to_hashes (maps demo_service) ''A'' = Some [''h1'']"
  by (simp add: index_defs)

lemma demo_pair_A: "document_to_hashes (maps demo_pair) ''A'' = Some [''h1'']"
  by (simp add: index_defs)

lemma demo_pair_B: "document_to_hashes (maps demo_pair) ''B'' = Some [''h2'', ''h1'']"
  by (simp add: index_defs)

subsection \<open>Reading a default dictionary\<close>

lemma dd_value_touch [simp]: "dd_value (dd_touch d k) k' = dd_value d k'"
  by (auto simp: dd_value_def dd_touch_def split: option.splits)

lemma dd_touch_Some: "d k' = Some v \<Longrightarrow> dd_touch d k k' = Some v"
  by (auto simp: dd_touch_def split: option.splits)

subsection \<open>Bidirectional consistency\<close>

lemma consistent_empty: "consistent empty_maps"
  by (simp add: consistent_def empty_maps_def)

lemma add_sentence_frame [simp]:
  "hash_to_documents (add_sentence d c sd m) = hash_to_documents m"
  "document_to_hashes (add_sentence d c sd m) = document_to_hashes m"
  by (simp_all add: add_sentence_def Let_def)

lemma fold_add_sentence_frame:
  "hash_to_documents (fold (add_sentence d c) sds m) = hash_to_documents m \<and>
   document_to_hashes (fold (add_sentence d c) sds m) = document_to_hashes m"
  by (induction sds arbitrary: m) simp_all

lemma add_sentences_frame [simp]:
  "hash_to_documents (add_sentences d c m) = hash_to_documents m"
  "document_to_hashes (add_sentences d c m) = document_to_hashes m"
  by (simp_all add: add_sentences_def fold_add_sentence_frame)

lemma consistent_cong:
  "hash_to_documents m' = hash_to_documents m \<Longrightarrow> document_to_hashes m' = document_to_hashes m
   \<Longrightarrow> consistent m' = consistent m"
  by (simp add: consistent_def)

lemma consistent_add_section:
  assumes "consistent m" "ref_document_name r = d"
  shows "consistent (add_section d h r m)"
  unfolding consistent_def
proof (intro allI impI ballI)
  fix d' hs h'
  assume A: "document_to_hashes (add_section d h r m) d' = Some hs" and B: "h' \<in> set hs"
  show "\<exists>refs. hash_to_documents (add_section d h r m) h' = Some refs \<and>
           (\<exists>x \<in> set refs. ref_document_name x = d')"
  proof (cases "h' = h")
    case True
    show ?thesis
    proof (cases "d' = d")
      case True
      with \<open>h' = h\<close> assms(2) show ?thesis by (simp add: add_section_def)
    next
      case False
      with A have "document_to_hashes m d' = Some hs" by (simp add: add_section_def)
      with assms(1) B obtain refs x where
        "hash_to_documents m h' = Some refs" "x \<in> set refs" "ref_document_name x = d'"
        unfolding consistent_def by blast
      with \<open>h' = h\<close> show ?thesis by (auto simp: add_section_def dd_value_def)
    qed
  next
    case False
    have "\<exists>hs0. document_to_hashes m d' = Some hs0 \<and> h' \<in> set hs0"
    proof (cases "d' = d")
      case True
      with A have "hs = List.insert h (dd_value (document_to_hashes m) d)"
        by (simp add: add_section_def)
      with B False have "h' \<in> set (dd_value (document_to_hashes m) d)" by simp
      with True show ?thesis by (cases "document_to_hashes m d") (auto simp: dd_value_def)
    next
      case False
      with A B show ?thesis by (simp add: add_section_def)
    qed
    with assms(1) obtain refs x where
      "hash_to_documents m h' = Some refs" "x \<in> set refs" "ref_document_name x = d'"
      unfolding consistent_def by blast
    with False show ?thesis by (auto simp: add_section_def)
  qed
qed

lemma make_chunk_ref_name [simp]: "ref_document_name (make_chunk_ref d c t) = d"
  by (simp add: make_chunk_ref_def)

lemma consistent_add_loop:
  "consistent m \<Longrightarrow> consistent (snd (add_loop d cs m))"
proof (induction cs arbitrary: m)
  case Nil
  then show ?case by simp
next
  case (Cons c cs)
  show ?case
  proof (cases "c_content_hash c")
    case None
    with Cons show ?thesis by simp
  next
    case (Some h)
    show ?thesis
    proof (cases "h = [] \<or> c_text c = None")
      case True
      with Some Cons show ?thesis by auto
    next
      case False
      then obtain t where t: "c_text c = Some t" and h: "h \<noteq> []" by auto
      have "consistent (add_sentences d c (add_section d h (make_chunk_ref d c t) m))"
        using consistent_add_section [OF Cons.prems, of "make_chunk_ref d c t" d h]
        by (simp add: consistent_cong [of "add_sentences d c _"])
      from Cons.IH [OF this] Some t h show ?thesis by simp
    qed
  qed
qed

lemma consistent_add_document_chunks:
  "consistent (maps s) \<Longrightarrow> consistent (maps (add_document_chunks d cs s))"
  using consistent_add_loop [of "maps s" d cs]
  by (auto simp: add_document_chunks_def save_data_def split: prod.splits option.splits)

text \<open>What the loop of \<open>remove_document\<close> leaves under each hash.\<close>

lemma fold_remove_step_lookup:
  "fst (fold (remove_step d) hs (h2d, n)) h =
     (if h \<in> set hs then
        (case h2d h of None \<Rightarrow> None
         | Some refs \<Rightarrow> (let kept = filter (\<lambda>r. ref_document_name r \<noteq> d) refs in
                         if kept = [] then None else Some kept))
      else h2d h)"
proof (induction hs arbitrary: h2d n)
  case Nil
  then show ?case by simp
next
  case (Cons a hs)
  obtain h2d' n' where st: "remove_step d a (h2d, n) = (h2d', n')"
    by (cases "remove_step d a (h2d, n)")
  have look: "h2d' h = (if h = a then (case h2d h of None \<Rightarrow> None
         | Some refs \<Rightarrow> (let kept = filter (\<lambda>r. ref_document_name r \<noteq> d) refs in
                         if kept = [] then None else Some kept)) else h2d h)"
    using st by (auto simp: remove_step_def Let_def split: option.splits if_splits)
  show ?case
    using Cons.IH [of h2d' n'] st look
    by (auto simp: Let_def split: option.splits if_splits)
qed

lemma maps_remove_document:
  assumes "document_to_hashes (maps s) d = Some hs"
  shows "maps (snd (remove_document d s)) =
     (maps s)\<lparr>hash_to_documents :=
                 fst (fold (remove_step d) hs (hash_to_documents (maps s), 0)),
              document_to_hashes := (document_to_hashes (maps s))(d := None)\<rparr>"
  using assms by (simp add: remove_document_def split: prod.splits)

lemma consistent_remove_document:
  assumes "consistent (maps s)"
  shows "consistent (maps (snd (remove_document d s)))"
proof (cases "document_to_hashes (maps s) d")
  case None
  with assms show ?thesis by (simp add: remove_document_def)
next
  case (Some hs)
  define h2d where "h2d = fst (fold (remove_step d) hs (hash_to_documents (maps s), 0))"
  have look: "\<And>h. h2d h = (if h \<in> set hs then
        (case hash_to_documents (maps s) h of None \<Rightarrow> None
         | Some refs \<Rightarrow> (let kept = filter (\<lambda>r. ref_document_name r \<noteq> d) refs in
                         if kept = [] then None else Some kept))
      else hash_to_documents (maps s) h)"
    unfolding h2d_def by (rule fold_remove_step_lookup)
  have m: "maps (snd (remove_document d s)) = (maps s)\<lparr>hash_to_documents := h2d,
                     document_to_hashes := (document_to_hashes (maps s))(d := None)\<rparr>"
    unfolding h2d_def by (rule maps_remove_document [OF Some])
  show ?thesis
    unfolding consistent_def m
  proof (intro allI impI ballI)
    fix d' hs' h
    assume A: "document_to_hashes ((maps s)\<lparr>hash_to_documents := h2d,
                     document_to_hashes := (document_to_hashes (maps s))(d := None)\<rparr>) d' = Some hs'"
      and B: "h \<in> set hs'"
    from A have ne: "d' \<noteq> d" and A': "document_to_hashes (maps s) d' = Some hs'"
      by (auto split: if_splits)
    from assms A' B obtain refs x where R: "hash_to_documents (maps s) h = Some refs"
      "x \<in> set refs" "ref_document_name x = d'"
      unfolding consistent_def by blast
    from R ne have ne2: "filter (\<lambda>r. ref_document_name r \<noteq> d) refs \<noteq> []"
      by (auto simp: filter_empty_conv)
    show "\<exists>refs. hash_to_documents ((maps s)\<lparr>hash_to_documents := h2d,
                     document_to_hashes := (document_to_hashes (maps s))(d := None)\<rparr>) h = Some refs \<and>
           (\<exists>r \<in> set refs. ref_document_name r = d')"
      using look [of h] R ne ne2 by (auto simp: Let_def)
  qed
qed

lemma find_loop_lookup:
  "h2d k = Some v \<Longrightarrow> snd (find_loop d hs h2d acc) k = Some v"
  by (induction d hs h2d acc rule: find_loop.induct) (auto simp: Let_def dd_touch_Some)

lemma compare_loop_lookup:
  "h2d k = Some v \<Longrightarrow> snd (compare_loop a b hs h2d acc) k = Some v"
  by (induction a b hs h2d acc rule: compare_loop.induct)
     (auto simp: Let_def dd_touch_Some split: option.splits)

lemma consistent_h2d_mono:
  assumes "consistent m" "\<And>k v. hash_to_documents m k = Some v \<Longrightarrow> h2d k = Some v"
  shows "consistent (m\<lparr>hash_to_documents := h2d\<rparr>)"
  using assms unfolding consistent_def by fastforce

lemma consistent_find_exact_matches:
  assumes "consistent (maps s)"
  shows "consistent (maps (snd (find_exact_matches d s)))"
proof (cases "document_to_hashes (maps s) d")
  case None
  with assms show ?thesis by (simp add: find_exact_matches_def)
next
  case (Some hs)
  have "maps (snd (find_exact_matches d s)) =
      (maps s)\<lparr>hash_to_documents := snd (find_loop d hs (hash_to_documents (maps s)) [])\<rparr>"
    using Some by (simp add: find_exact_matches_def split: prod.splits)
  then show ?thesis
    using consistent_h2d_mono [OF assms] find_loop_lookup by metis
qed

lemma consistent_compare_documents_exact:
  assumes "consistent (maps s)"
  shows "consistent (maps (snd (compare_documents_exact a b s)))"
proof (cases "document_to_hashes (maps s) a")
  case None
  with assms show ?thesis by (simp add: compare_documents_exact_def)
next
  case A: (Some hs1)
  show ?thesis
  proof (cases "document_to_hashes (maps s) b")
    case None
    with A assms show ?thesis by (simp add: compare_documents_exact_def)
  next
    case (Some hs2)
    have "maps (snd (compare_documents_exact a b s)) =
      (maps s)\<lparr>hash_to_documents :=
         snd (compare_loop a b (set_intersection hs1 hs2) (hash_to_documents (maps s)) [])\<rparr>"
      using A Some by (simp add: compare_documents_exact_def Let_def split: prod.splits)
    then show ?thesis
      using consistent_h2d_mono [OF assms] compare_loop_lookup by metis
  qed
qed

lemma compare_documents_sentence_level_frame:
  "hash_to_documents (maps (snd (compare_documents_sentence_level a b s)))
      = hash_to_documents (maps s) \<and>
   document_to_hashes (maps (snd (compare_documents_sentence_level a b s)))
      = document_to_hashes (maps s)"
proof (cases "document_to_sentence_hashes (maps s) a")
  case None
  then show ?thesis by (simp add: compare_documents_sentence_level_def)
next
  case A: (Some hs1)
  show ?thesis
  proof (cases "document_to_sentence_hashes (maps s) b")
    case None
    with A show ?thesis by (simp add: compare_documents_sentence_level_def)
  next
    case (Some hs2)
    with A show ?thesis
      by (simp add: compare_documents_sentence_level_def Let_def split: prod.splits
          del: sentence_compare_loop.simps)
  qed
qed

lemma consistent_compare_documents_sentence_level:
  assumes "consistent (maps s)"
  shows "consistent (maps (snd (compare_documents_sentence_level a b s)))"
  using assms compare_documents_sentence_level_frame [of a b s]
    consistent_cong [of "maps (snd (compare_documents_sentence_level a b s))" "maps s"]
  by blast

lemma reachable_consistent: "reachable s \<Longrightarrow> consistent (maps s)"
proof (induction rule: reachable.induct)
  case reach_empty
  show ?case by (simp add: empty_service_def consistent_empty)
next
  case (reach_add s document_name chunks)
  from reach_add.IH show ?case by (rule consistent_add_document_chunks)
next
  case (reach_remove s document_name)
  from reach_remove.IH show ?case by (rule consistent_remove_document)
next
  case (reach_find s document_name)
  from reach_find.IH show ?case by (rule consistent_find_exact_matches)
next
  case (reach_compare s doc1_name doc2_name)
  from reach_compare.IH show ?case by (rule consistent_compare_documents_exact)
next
  case (reach_compare_sentences s doc1_name doc2_name)
  from reach_compare_sentences.IH show ?case
    by (rule consistent_compare_documents_sentence_level)
qed

text \<open>
  Claim C2. Starting from the empty index, after any sequence of calls of
  \<open>add_document_chunks\<close> and \<open>remove_document\<close> (and of the queries that store
  defaults when they read), every hash listed for a document in \<open>document_to_hashes\<close>
  is a key of \<open>hash_to_documents\<close> whose list holds a reference naming that document.
\<close>

theorem bidirectional_consistency_preserved:
  "reachable s \<Longrightarrow>
   \<forall>d hs. document_to_hashes (maps s) d = Some hs \<longrightarrow>
     (\<forall>h \<in> set hs. \<exists>refs. hash_to_documents (maps s) h = Some refs \<and>
        (\<exists>r \<in> set refs. ref_document_name r = d))"
  using reachable_consistent [of s] by (simp add: consistent_def)

theorem bidirectional_consistency_preserved_witness:
  "reachable demo_service \<and> document_to_hashes (maps demo_service) ''A'' = Some [''h1''] \<and>
   (\<exists>refs. hash_to_documents (maps demo_service) ''h1'' = Some refs \<and>
      (\<exists>r \<in> set refs. ref_document_name r = ''A''))"
proof -
  have r: "reachable demo_service"
    unfolding demo_service_def by (rule reach_add [OF reach_empty])
  from bidirectional_consistency_preserved [OF r] demo_service_A
  have "\<forall>h \<in> set [''h1'']. \<exists>refs. hash_to_documents (maps demo_service) h = Some refs \<and>
        (\<exists>r \<in> set refs. ref_document_name r = ''A'')" by blast
  with r demo_service_A show ?thesis by simp
qed

subsection \<open>Removal\<close>

text \<open>
  Claim C1. \<open>remove_document\<close> is to purge the document from all four mappings. On the
  index that holds document \<open>A\<close> with one sentence hash, the call deletes \<open>A\<close> from
  \<open>document_to_hashes\<close>, and leaves the entry of \<open>A\<close> in \<open>document_to_sentence_hashes\<close>
  and the sentence reference naming \<open>A\<close> in \<open>sentence_hash_to_documents\<close>.
\<close>

theorem remove_document_keeps_sentence_entries:
  "document_to_hashes (maps demo_service) ''A'' \<noteq> None \<and>
   document_to_hashes (maps (snd (remove_document ''A'' demo_service))) ''A'' = None \<and>
   document_to_sentence_hashes (maps (snd (remove_document ''A'' demo_service))) ''A''
     = Some [''s1''] \<and>
   map sref_document_name
     (dd_value (sentence_hash_to_documents (maps (snd (remove_document ''A'' demo_service))))
        ''s1'') = [''A'']"
  by (simp add: index_defs)

text \<open>
  Claim C9. Every mutating call is to write the four mappings to the persistence file.
  \<open>add_document_chunks\<close> does; after \<open>remove_document\<close> the file still holds the
  mappings as they were before the removal, document \<open>A\<close> included, and differs from
  the mappings in memory.
\<close>

theorem remove_document_does_not_persist:
  "persistence_file demo_service = Some (maps demo_service) \<and>
   (\<exists>m. persistence_file (snd (remove_document ''A'' demo_service)) = Some m \<and>
        document_to_hashes m ''A'' = Some [''h1'']) \<and>
   document_to_hashes (maps (snd (remove_document ''A'' demo_service))) ''A'' = None \<and>
   persistence_file (snd (remove_document ''A'' demo_service))
     \<noteq> Some (maps (snd (remove_document ''A'' demo_service)))"
proof -
  have a: "persistence_file demo_service = Some (maps demo_service)"
    by (simp add: demo_service_def demo_chunk_def add_document_chunks_def save_data_def)
  have b: "persistence_file (snd (remove_document ''A'' demo_service))
      = persistence_file demo_service"
    by (simp add: remove_document_def split: option.splits prod.splits)
  have d: "document_to_hashes (maps (snd (remove_document ''A'' demo_service))) ''A'' = None"
    by (simp add: index_defs)
  from demo_service_A d have "maps demo_service \<noteq> maps (snd (remove_document ''A'' demo_service))"
    by auto
  with a b demo_service_A d show ?thesis by simp
qed

subsection \<open>Queries\<close>

lemma find_loop_Cons:
  "find_loop d (h # hs) h2d acc =
     find_loop d hs (dd_touch h2d h)
       (if length (dd_value h2d h) > 1 \<and>
           filter (\<lambda>r. ref_document_name r \<noteq> d) (dd_value h2d h) \<noteq> []
        then acc @ [find_match d h (dd_value h2d h)] else acc)"
  by (simp add: Let_def)

lemma find_loop_matches:
  "m \<in> set (fst (find_loop d hs h2d acc)) \<Longrightarrow>
     m \<in> set acc \<or>
     (mi_content_hash m \<in> set hs \<and>
      mi_matching_documents m =
        filter (\<lambda>r. ref_document_name r \<noteq> d) (dd_value h2d (mi_content_hash m)) \<and>
      mi_matching_documents m \<noteq> [])"
proof (induction hs arbitrary: h2d acc)
  case Nil
  then show ?case by simp
next
  case (Cons h hs)
  let ?acc = "if length (dd_value h2d h) > 1 \<and>
           filter (\<lambda>r. ref_document_name r \<noteq> d) (dd_value h2d h) \<noteq> []
        then acc @ [find_match d h (dd_value h2d h)] else acc"
  from Cons.prems have "m \<in> set (fst (find_loop d hs (dd_touch h2d h) ?acc))"
    by (simp only: find_loop_Cons)
  from Cons.IH [OF this] show ?case
    by (auto simp: find_match_def split: if_splits)
qed

lemma find_exact_matches_known:
  assumes "document_to_hashes (maps s) D = Some hs"
  shows "fst (find_exact_matches D s) =
     FindOk \<lparr>fo_document = D, fo_total_unique_sections = set_len hs,
             fo_exact_matches = length (fst (find_loop D hs (hash_to_documents (maps s)) [])),
             fo_matches = fst (find_loop D hs (hash_to_documents (maps s)) [])\<rparr>"
  using assms by (simp add: find_exact_matches_def split: prod.splits)

text \<open>
  Claim C5. For a document that is not a key of \<open>document_to_hashes\<close>,
  \<open>find_exact_matches\<close> returns the payload with the error \<open>Document not found\<close> and
  an empty list of matches. For a known document it returns the analysis, and every
  match in it is for a hash of the document whose reference list names another
  document; no reference among the \<open>matching_documents\<close> names the document itself.
  The result is a value in both cases: the function raises nothing.
\<close>

theorem find_exact_matches_soft_failure_no_self_match:
  "(document_to_hashes (maps s) D = None \<longrightarrow>
      fst (find_exact_matches D s) = FindError ''Document not found'' []) \<and>
   (\<forall>hs. document_to_hashes (maps s) D = Some hs \<longrightarrow>
      (\<exists>r. fst (find_exact_matches D s) = FindOk r \<and>
         (\<forall>m \<in> set (fo_matches r).
            mi_content_hash m \<in> set hs \<and>
            (\<exists>x \<in> set (dd_value (hash_to_documents (maps s)) (mi_content_hash m)).
               ref_document_name x \<noteq> D) \<and>
            (\<forall>x \<in> set (mi_matching_documents m). ref_document_name x \<noteq> D))))"
proof (intro conjI impI allI)
  assume "document_to_hashes (maps s) D = None"
  then show "fst (find_exact_matches D s) = FindError ''Document not found'' []"
    by (simp add: find_exact_matches_def)
next
  fix hs
  assume hs: "document_to_hashes (maps s) D = Some hs"
  let ?ms = "fst (find_loop D hs (hash_to_documents (maps s)) [])"
  let ?r = "\<lparr>fo_document = D, fo_total_unique_sections = set_len hs,
             fo_exact_matches = length ?ms, fo_matches = ?ms\<rparr>"
  have res: "fst (find_exact_matches D s) = FindOk ?r"
    by (rule find_exact_matches_known [OF hs])
  have "\<forall>m \<in> set (fo_matches ?r).
            mi_content_hash m \<in> set hs \<and>
            (\<exists>x \<in> set (dd_value (hash_to_documents (maps s)) (mi_content_hash m)).
               ref_document_name x \<noteq> D) \<and>
            (\<forall>x \<in> set (mi_matching_documents m). ref_document_name x \<noteq> D)"
  proof
    fix m assume "m \<in> set (fo_matches ?r)"
    then have "m \<in> set ?ms" by simp
    from find_loop_matches [OF this]
    have h: "mi_content_hash m \<in> set hs"
      and md: "mi_matching_documents m =
        filter (\<lambda>r. ref_document_name r \<noteq> D)
          (dd_value (hash_to_documents (maps s)) (mi_content_hash m))"
      and ne: "mi_matching_documents m \<noteq> []" by auto
    from md ne have "\<exists>x \<in> set (dd_value (hash_to_documents (maps s)) (mi_content_hash m)).
               ref_document_name x \<noteq> D"
      by (auto simp: filter_empty_conv)
    moreover from md have "\<forall>x \<in> set (mi_matching_documents m). ref_document_name x \<noteq> D"
      by simp
    ultimately show "mi_content_hash m \<in> set hs \<and>
            (\<exists>x \<in> set (dd_value (hash_to_documents (maps s)) (mi_content_hash m)).
               ref_document_name x \<noteq> D) \<and>
            (\<forall>x \<in> set (mi_matching_documents m). ref_document_name x \<noteq> D)"
      using h by blast
  qed
  with res show "\<exists>r. fst (find_exact_matches D s) = FindOk r \<and>
         (\<forall>m \<in> set (fo_matches r).
            mi_content_hash m \<in> set hs \<and>
            (\<exists>x \<in> set (dd_value (hash_to_documents (maps s)) (mi_content_hash m)).
               ref_document_name x \<noteq> D) \<and>
            (\<forall>x \<in> set (mi_matching_documents m). ref_document_name x \<noteq> D))"
    by blast
qed

lemma demo_pair_find_A:
  "map mi_content_hash (fst (find_loop ''A'' [''h1''] (hash_to_documents (maps demo_pair)) []))
     = [''h1'']"
  by (simp add: index_defs)

theorem find_exact_matches_soft_failure_no_self_match_witness:
  "document_to_hashes (maps demo_pair) ''Z'' = None \<and>
   fst (find_exact_matches ''Z'' demo_pair) = FindError ''Document not found'' [] \<and>
   document_to_hashes (maps demo_pair) ''A'' = Some [''h1''] \<and>
   (\<exists>r. fst (find_exact_matches ''A'' demo_pair) = FindOk r \<and>
      map mi_content_hash (fo_matches r) = [''h1''] \<and>
      (\<forall>m \<in> set (fo_matches r).
          mi_content_hash m \<in> set [''h1''] \<and>
          (\<exists>x \<in> set (dd_value (hash_to_documents (maps demo_pair)) (mi_content_hash m)).
               ref_document_name x \<noteq> ''A'') \<and>
          (\<forall>x \<in> set (mi_matching_documents m). ref_document_name x \<noteq> ''A'')))"
proof -
  have z: "document_to_hashes (maps demo_pair) ''Z'' = None"
    by (simp add: index_defs)
  from find_exact_matches_soft_failure_no_self_match [of demo_pair "''Z''"] z
  have e: "fst (find_exact_matches ''Z'' demo_pair) = FindError ''Document not found'' []"
    by blast
  from find_exact_matches_soft_failure_no_self_match [of demo_pair "''A''"] demo_pair_A
  obtain r where r: "fst (find_exact_matches ''A'' demo_pair) = FindOk r"
    "\<forall>m \<in> set (fo_matches r).
          mi_content_hash m \<in> set [''h1''] \<and>
          (\<exists>x \<in> set (dd_value (hash_to_documents (maps demo_pair)) (mi_content_hash m)).
               ref_document_name x \<noteq> ''A'') \<and>
          (\<forall>x \<in> set (mi_matching_documents m). ref_document_name x \<noteq> ''A'')"
    by blast
  have "fo_matches r = fst (find_loop ''A'' [''h1''] (hash_to_documents (maps demo_pair)) [])"
    using r(1) find_exact_matches_known [OF demo_pair_A] by (auto simp del: find_loop.simps)
  then have m: "map mi_content_hash (fo_matches r) = [''h1'']"
    by (simp only: demo_pair_find_A)
  show ?thesis
    by (intro conjI exI [of _ r]) (rule z e demo_pair_A r m)+
qed

subsection \<open>The similarity score\<close>

lemma set_set_intersection [simp]: "set (set_intersection xs ys) = set xs \<inter> set ys"
  by (auto simp: set_intersection_def)

lemma compare_documents_exact_result:
  assumes "document_to_hashes (maps s) A = Some ha" "document_to_hashes (maps s) B = Some hb"
  shows "\<exists>r. fst (compare_documents_exact A B s) = CompareOk r \<and>
     co_common_sections r = card (set ha \<inter> set hb) \<and>
     co_exact_match_score r =
       similarity_score (card (set ha \<inter> set hb)) (card (set ha)) (card (set hb))"
  using assms by (simp add: compare_documents_exact_def Let_def set_len_def split: prod.splits)

lemma similarity_score_formula:
  "similarity_score c a b = of_nat (2 * c) / of_nat (a + b)"
  by (simp add: similarity_score_def mult.commute)

lemma similarity_score_bounds:
  assumes "c \<le> a" "c \<le> b"
  shows "0 \<le> similarity_score c a b" "similarity_score c a b \<le> 1"
proof -
  show "0 \<le> similarity_score c a b" by (simp add: similarity_score_def)
  have "c * 2 \<le> a + b" using assms by simp
  then have "(of_nat (c * 2) :: rat) \<le> of_nat (a + b)" by (simp only: of_nat_le_iff)
  then show "similarity_score c a b \<le> 1"
    by (simp add: similarity_score_def divide_le_eq_1)
qed

lemma similarity_score_one:
  assumes "c \<le> a" "c \<le> b"
  shows "similarity_score c a b = 1 \<longleftrightarrow> c = a \<and> c = b \<and> 0 < a"
proof (cases "a + b > 0")
  case False
  then show ?thesis by (simp add: similarity_score_def)
next
  case True
  then have nz: "(of_nat (a + b) :: rat) \<noteq> 0" by (simp only: of_nat_eq_0_iff)
  have "similarity_score c a b = (of_nat (c * 2) :: rat) / of_nat (a + b)"
    using True by (simp only: similarity_score_def if_True)
  then have "similarity_score c a b = 1 \<longleftrightarrow> (of_nat (c * 2) :: rat) = of_nat (a + b)"
    using nz by (simp only: divide_eq_1_iff) blast
  also have "\<dots> \<longleftrightarrow> c * 2 = a + b" by (simp only: of_nat_eq_iff)
  also have "\<dots> \<longleftrightarrow> c = a \<and> c = b \<and> 0 < a" using assms True by auto
  finally show ?thesis .
qed

lemma similarity_score_zero:
  assumes "c \<le> a" "c \<le> b"
  shows "similarity_score c a b = 0 \<longleftrightarrow> c = 0"
  using assms by (auto simp: similarity_score_def)

text \<open>
  Claim C3. For two indexed documents with hash sets \<open>ha\<close> and \<open>hb\<close>,
  \<open>compare_documents_exact\<close> returns the score \<open>2 |ha \<inter> hb| / (|ha| + |hb|)\<close>; the
  score and \<open>common_sections\<close> are the same with the arguments swapped; the score lies
  between 0 and 1, is 1 exactly when the two sets are equal and not empty, and is 0
  exactly when they are disjoint. (For two empty sets the code returns 0, which is
  also the value of the quotient in HOL.)
\<close>

theorem compare_documents_exact_dice_score:
  assumes "document_to_hashes (maps s) A = Some ha" "document_to_hashes (maps s) B = Some hb"
  shows "\<exists>r r'. fst (compare_documents_exact A B s) = CompareOk r \<and>
     fst (compare_documents_exact B A s) = CompareOk r' \<and>
     co_exact_match_score r =
       of_nat (2 * card (set ha \<inter> set hb)) / of_nat (card (set ha) + card (set hb)) \<and>
     co_exact_match_score r' = co_exact_match_score r \<and>
     co_common_sections r' = co_common_sections r \<and>
     0 \<le> co_exact_match_score r \<and> co_exact_match_score r \<le> 1 \<and>
     (co_exact_match_score r = 1 \<longleftrightarrow> set ha = set hb \<and> set ha \<noteq> {}) \<and>
     (co_exact_match_score r = 0 \<longleftrightarrow> set ha \<inter> set hb = {})"
proof -
  let ?c = "card (set ha \<inter> set hb)" and ?a = "card (set ha)" and ?b = "card (set hb)"
  from compare_documents_exact_result [OF assms] obtain r where
    r: "fst (compare_documents_exact A B s) = CompareOk r"
       "co_common_sections r = ?c" "co_exact_match_score r = similarity_score ?c ?a ?b"
    by blast
  from compare_documents_exact_result [OF assms(2) assms(1)] obtain r' where
    r': "fst (compare_documents_exact B A s) = CompareOk r'"
       "co_common_sections r' = card (set hb \<inter> set ha)"
       "co_exact_match_score r' = similarity_score (card (set hb \<inter> set ha)) ?b ?a"
    by blast
  have ca: "?c \<le> ?a" by (simp add: card_mono)
  have cb: "?c \<le> ?b" by (simp add: card_mono)
  have sym: "co_exact_match_score r' = co_exact_match_score r"
    using r r' by (simp add: Int_commute similarity_score_def add.commute)
  have symc: "co_common_sections r' = co_common_sections r"
    using r r' by (simp add: Int_commute)
  have one: "co_exact_match_score r = 1 \<longleftrightarrow> set ha = set hb \<and> set ha \<noteq> {}"
  proof -
    have "co_exact_match_score r = 1 \<longleftrightarrow> ?c = ?a \<and> ?c = ?b \<and> 0 < ?a"
      using r similarity_score_one [OF ca cb] by simp
    also have "\<dots> \<longleftrightarrow> set ha = set hb \<and> set ha \<noteq> {}"
    proof
      assume h: "?c = ?a \<and> ?c = ?b \<and> 0 < ?a"
      then have "set ha \<inter> set hb = set ha" "set ha \<inter> set hb = set hb"
        by (simp_all add: card_subset_eq)
      moreover from h have "set ha \<noteq> {}" by auto
      ultimately show "set ha = set hb \<and> set ha \<noteq> {}" by auto
    next
      assume "set ha = set hb \<and> set ha \<noteq> {}"
      then show "?c = ?a \<and> ?c = ?b \<and> 0 < ?a" by (auto simp: card_gt_0_iff)
    qed
    finally show ?thesis .
  qed
  have zero: "co_exact_match_score r = 0 \<longleftrightarrow> set ha \<inter> set hb = {}"
    using r similarity_score_zero [OF ca cb] by simp
  show ?thesis
    using r r' sym symc one zero similarity_score_bounds [OF ca cb]
      similarity_score_formula [of ?c ?a ?b]
    by simp
qed

theorem compare_documents_exact_dice_score_witness:
  "document_to_hashes (maps demo_pair) ''A'' = Some [''h1''] \<and>
   document_to_hashes (maps demo_pair) ''B'' = Some [''h2'', ''h1''] \<and>
   (\<exists>r r'. fst (compare_documents_exact ''A'' ''B'' demo_pair) = CompareOk r \<and>
     fst (compare_documents_exact ''B'' ''A'' demo_pair) = CompareOk r' \<and>
     co_exact_match_score r = 2 / 3 \<and>
     co_exact_match_score r' = co_exact_match_score r \<and>
     co_common_sections r' = co_common_sections r)"
proof -
  have c: "card (set [''h1''] \<inter> set [''h2'', ''h1'']) = 1" "card (set [''h1'']) = 1"
     "card (set [''h2'', ''h1'']) = 2" by simp_all
  from compare_documents_exact_dice_score [OF demo_pair_A demo_pair_B] show ?thesis
    unfolding c using demo_pair_A demo_pair_B by auto
qed

section \<open>Properties of the chunker\<close>

subsection \<open>Normalization\<close>

lemma of_char_lower_char:
  "(of_char (lower_char c) :: nat) =
     (if (65 \<le> (of_char c :: nat) \<and> (of_char c :: nat) \<le> 90) \<or>
         (192 \<le> (of_char c :: nat) \<and> (of_char c :: nat) \<le> 222 \<and> (of_char c :: nat) \<noteq> 215)
      then of_char c + 32 else of_char c)"
  by (auto simp: lower_char_def Let_def)

lemma lower_char_idem [simp]: "lower_char (lower_char c) = lower_char c"
proof -
  have "(of_char (lower_char (lower_char c)) :: nat) = of_char (lower_char c)"
    by (simp only: of_char_lower_char [of "lower_char c"]) (simp add: of_char_lower_char)
  then show ?thesis by (simp only: of_char_eq_iff)
qed

lemma is_space_lower_char [simp]: "is_space (lower_char c) = is_space c"
  by (simp add: is_space_def of_char_lower_char)

lemma lower_idem [simp]: "lower (lower s) = lower s"
  by (simp add: lower_def)

lemma lower_space [simp]: "lower_char CHR '' '' = CHR '' ''"
  by (simp add: lower_char_def)

lemma lstrip_head: "lstrip s = [] \<or> \<not> is_space (hd (lstrip s))"
  unfolding lstrip_def by (metis hd_dropWhile)

lemma rstrip_last: "rstrip s = [] \<or> \<not> is_space (last (rstrip s))"
  unfolding rstrip_def
  by (metis hd_dropWhile last_rev rev_is_Nil_conv)

lemma rstrip_eq: "s = [] \<or> \<not> is_space (last s) \<Longrightarrow> rstrip s = s"
  unfolding rstrip_def by (cases s rule: rev_cases) auto

lemma lstrip_eq: "s = [] \<or> \<not> is_space (hd s) \<Longrightarrow> lstrip s = s"
  unfolding lstrip_def by (cases s) auto

lemma rstrip_prefix: "\<exists>ws. s = rstrip s @ ws \<and> (\<forall>c \<in> set ws. is_space c)"
proof -
  have "rev s = takeWhile is_space (rev s) @ dropWhile is_space (rev s)" by simp
  then have "s = rev (dropWhile is_space (rev s)) @ rev (takeWhile is_space (rev s))"
    by (metis rev_append rev_rev_ident)
  moreover have "\<forall>c \<in> set (rev (takeWhile is_space (rev s))). is_space c"
    by (auto dest: set_takeWhileD)
  ultimately show ?thesis unfolding rstrip_def by blast
qed

lemma rstrip_hd: "rstrip s \<noteq> [] \<Longrightarrow> hd (rstrip s) = hd s"
  using rstrip_prefix [of s] by (metis hd_append2)

lemma strip_trimmed: "trimmed (strip s)"
proof (cases "strip s = []")
  case True
  then show ?thesis by (simp add: trimmed_def)
next
  case False
  then have ne: "rstrip (lstrip s) \<noteq> []" by (simp add: strip_def)
  then have "lstrip s \<noteq> []" by (auto simp: rstrip_def)
  with lstrip_head [of s] have "\<not> is_space (hd (lstrip s))" by simp
  with rstrip_hd [OF ne] have "\<not> is_space (hd (strip s))" by (simp add: strip_def)
  moreover from rstrip_last [of "lstrip s"] ne have "\<not> is_space (last (strip s))"
    by (simp add: strip_def)
  ultimately show ?thesis by (simp add: trimmed_def)
qed

lemma trimmed_strip: "trimmed s \<Longrightarrow> strip s = s"
  unfolding trimmed_def strip_def
  by (metis lstrip_eq rstrip_eq)

lemma strip_idem [simp]: "strip (strip s) = strip s"
  by (rule trimmed_strip [OF strip_trimmed])

lemma trimmed_lower: "trimmed s \<Longrightarrow> trimmed (lower s)"
  unfolding trimmed_def lower_def
  by (cases s) (auto simp: hd_map last_map)

lemma collapse_ws_Nil_iff [simp]: "collapse_ws s = [] \<longleftrightarrow> s = []"
  by (cases s) auto

lemma hd_collapse_ws: "s \<noteq> [] \<Longrightarrow> \<not> is_space (hd s) \<Longrightarrow> hd (collapse_ws s) = hd s"
  by (cases s) auto

lemma last_dropWhile: "dropWhile P xs \<noteq> [] \<Longrightarrow> last (dropWhile P xs) = last xs"
  by (metis last_appendR takeWhile_dropWhile_id)

lemma last_collapse_ws:
  "s \<noteq> [] \<Longrightarrow> \<not> is_space (last s) \<Longrightarrow> last (collapse_ws s) = last s"
proof (induction s rule: collapse_ws.induct)
  case 1
  then show ?case by simp
next
  case (2 c cs)
  show ?case
  proof (cases "is_space c")
    case True
    with "2.prems" have cs: "cs \<noteq> []" by auto
    with "2.prems" have l: "\<not> is_space (last cs)" by simp
    have dn: "dropWhile is_space cs \<noteq> []"
      using cs l by (metis dropWhile_eq_Nil_conv last_in_set)
    from last_dropWhile [OF dn] l
    have "last (collapse_ws (dropWhile is_space cs)) = last cs"
      using "2.IH"(1) [OF True dn] by simp
    moreover have "collapse_ws (dropWhile is_space cs) \<noteq> []"
      using dn by (simp only: collapse_ws_Nil_iff not_False_eq_True)
    moreover have "collapse_ws (c # cs) = CHR '' '' # collapse_ws (dropWhile is_space cs)"
      using True by simp
    ultimately show ?thesis using cs by (metis last_ConsR)
  next
    case False
    show ?thesis
    proof (cases "cs = []")
      case True
      with False show ?thesis by simp
    next
      case ne: False
      with "2.prems" have "\<not> is_space (last cs)" by simp
      from "2.IH"(2) [OF False ne this] False ne show ?thesis by simp
    qed
  qed
qed

lemma trimmed_collapse_ws: "trimmed s \<Longrightarrow> trimmed (collapse_ws s)"
  unfolding trimmed_def
  by (cases "s = []") (auto simp: hd_collapse_ws last_collapse_ws)

lemma set_collapse_ws: "c \<in> set (collapse_ws s) \<Longrightarrow> c = CHR '' '' \<or> c \<in> set s"
proof (induction s rule: collapse_ws.induct)
  case 1
  then show ?case by simp
next
  case (2 x xs)
  then show ?case
    by (auto split: if_splits dest: set_dropWhileD)
qed

lemma lower_collapse_ws_lower: "lower (collapse_ws (lower s)) = collapse_ws (lower s)"
proof -
  have "\<forall>c \<in> set (collapse_ws (lower s)). lower_char c = c"
  proof
    fix c assume "c \<in> set (collapse_ws (lower s))"
    then have "c = CHR '' '' \<or> c \<in> set (lower s)" by (rule set_collapse_ws)
    then show "lower_char c = c" by (auto simp: lower_def)
  qed
  then show ?thesis unfolding lower_def [of "collapse_ws _"] by (simp add: map_idI)
qed

lemma collapse_ws_head: "s = [] \<or> \<not> is_space (hd s) \<Longrightarrow>
   collapse_ws s = [] \<or> \<not> is_space (hd (collapse_ws s))"
  by (cases s) auto

lemma dropWhile_id: "xs = [] \<or> \<not> P (hd xs) \<Longrightarrow> dropWhile P xs = xs"
  by (cases xs) auto

lemma collapse_ws_idem [simp]: "collapse_ws (collapse_ws s) = collapse_ws s"
proof (induction s rule: collapse_ws.induct)
  case 1
  then show ?case by simp
next
  case (2 c cs)
  show ?case
  proof (cases "is_space c")
    case True
    let ?d = "dropWhile is_space cs"
    have "?d = [] \<or> \<not> is_space (hd ?d)" by (metis hd_dropWhile)
    then have "collapse_ws ?d = [] \<or> \<not> is_space (hd (collapse_ws ?d))"
      by (rule collapse_ws_head)
    then have "dropWhile is_space (collapse_ws ?d) = collapse_ws ?d"
      by (rule dropWhile_id)
    with True "2.IH"(1) [OF True] show ?thesis by (simp add: is_space_def)
  next
    case False
    with "2.IH"(2) [OF False] show ?thesis by simp
  qed
qed

lemma normalize_text_idem: "normalize_text (normalize_text t) = normalize_text t"
proof -
  let ?w = "collapse_ws (lower (strip t))"
  have "trimmed ?w"
    by (intro trimmed_collapse_ws trimmed_lower strip_trimmed)
  then have "strip ?w = ?w" by (rule trimmed_strip)
  then show ?thesis
    by (simp add: normalize_text_def lower_collapse_ws_lower)
qed

text \<open>
  Claim C4. The content hash of a text is the hash of its normalization: hashing
  \<open>normalize_text t\<close> gives the hash of \<open>t\<close>, for every digest \<open>H\<close>; in particular
  \<open>Foo  Bar\<close> and \<open>foo bar\<close> have the same hash. The hash stored in a chunk built from
  a section, and in a sub-chunk, is the hash of the chunk's own text, whatever the
  file name and the index.
\<close>

theorem content_hash_normalization_invariant:
  "generate_content_hash H (normalize_text t) = generate_content_hash H t \<and>
   normalize_text ''Foo  Bar'' = ''foo bar'' \<and>
   generate_content_hash H ''Foo  Bar'' = generate_content_hash H ''foo bar'' \<and>
   c_content_hash (section_chunk H filename i s)
     = Some (generate_content_hash H (sec_content s)) \<and>
   c_text (section_chunk H filename i s) = Some (sec_content s) \<and>
   c_content_hash (sub_chunk H metadata j para) = Some (generate_content_hash H para) \<and>
   c_text (sub_chunk H metadata j para) = Some para"
proof -
  have a: "normalize_text ''Foo  Bar'' = ''foo bar''"
    by (simp add: normalize_text_def strip_def lstrip_def rstrip_def lower_def lower_char_def
        is_space_def char_of_def bit_Suc_0_iff)
  have b: "normalize_text ''foo bar'' = ''foo bar''"
    by (simp add: normalize_text_def strip_def lstrip_def rstrip_def lower_def lower_char_def
        is_space_def)
  show ?thesis
    by (simp add: generate_content_hash_def normalize_text_idem a b section_chunk_def
        sub_chunk_def Let_def)
qed

subsection \<open>Header patterns and levels\<close>

lemma hd_dropWhile_not: "dropWhile P xs = [] \<or> \<not> P (hd (dropWhile P xs))"
  by (metis hd_dropWhile)

lemma scan_digits_Some:
  assumes "scan_digits s = Some (a, r)"
  shows "digits a" "s = a @ r" "r = [] \<or> \<not> is_digit (hd r)"
proof -
  from assms have a: "a = takeWhile is_digit s" and r: "r = dropWhile is_digit s"
    and ne: "takeWhile is_digit s \<noteq> []"
    by (auto simp: scan_digits_def split: if_splits)
  from a ne show "digits a"
    unfolding digits_def list_all_iff by (auto dest: set_takeWhileD)
  from a r show "s = a @ r" by simp
  from r show "r = [] \<or> \<not> is_digit (hd r)" using hd_dropWhile_not [of is_digit s] by simp
qed

lemma scan_digits_append:
  assumes "digits a" "r = [] \<or> \<not> is_digit (hd r)"
  shows "scan_digits (a @ r) = Some (a, r)"
proof -
  from assms(1) have all: "\<forall>x \<in> set a. is_digit x" and ne: "a \<noteq> []"
    by (auto simp: digits_def list_all_iff)
  from assms(2) have tr: "takeWhile is_digit r = []" and dr: "dropWhile is_digit r = r"
    by (cases r; simp)+
  from all have "takeWhile is_digit (a @ r) = a @ takeWhile is_digit r"
    by (simp add: takeWhile_append2)
  moreover from all have "dropWhile is_digit (a @ r) = dropWhile is_digit r"
    by (simp add: dropWhile_append2)
  ultimately show ?thesis using ne tr dr by (simp add: scan_digits_def)
qed

lemma scan_digits_None: "s = [] \<or> \<not> is_digit (hd s) \<Longrightarrow> scan_digits s = None"
  unfolding scan_digits_def by (cases s) auto

lemma expect_Some [simp]: "expect x s = Some r \<longleftrightarrow> s = cp x # r"
  unfolding expect_def by (auto split: list.splits)

lemma expect_simps [simp]:
  "expect x [] = None" "expect x (c # cs) = (if c = cp x then Some cs else None)"
  by (simp_all add: expect_def)

lemmas unicode_class_defs = is_unicode_space_def is_digit_def decimal_zeros_def is_upper_az_def
  is_lower_az_def is_letter_def is_roman_def is_upper_roman_def is_folded_letter_def
  ignorecase_def is_filler_def code_points_of_def newline_def Let_def

lemma dot_not_digit [simp]: "\<not> is_digit 46"
  by (simp add: is_digit_def decimal_zeros_def)

lemma at_end_Cons_dot [simp]: "at_end (46 # r) = False"
  by (simp add: at_end_def newline_def)

lemma is_letter_cases: "is_letter c \<longleftrightarrow> is_upper_az c \<or> is_lower_az c \<or> is_folded_letter c"
  by (auto simp: is_letter_def is_folded_letter_def)

lemma is_roman_cases:
  "is_roman c \<longleftrightarrow> c \<in> {73, 86, 88, 105, 118, 120, 304, 305}"
  by (auto simp: is_roman_def ignorecase_def is_upper_az_def is_lower_az_def Let_def)

lemma is_upper_roman_cases: "is_upper_roman c \<longleftrightarrow> c \<in> {73, 86, 88}"
  by (auto simp: is_upper_roman_def code_points_of_def)

lemma is_digit_cases:
  "is_digit c \<Longrightarrow> (48 \<le> c \<and> c \<le> 57) \<or> 1632 \<le> c"
  by (auto simp: is_digit_def decimal_zeros_def)

lemma digit_not_letter: "is_digit c \<Longrightarrow> \<not> is_letter c"
  by (auto simp: is_digit_def decimal_zeros_def is_letter_def is_upper_az_def is_lower_az_def)

lemma upper_not_lower: "is_upper_az c \<Longrightarrow> \<not> is_lower_az c"
  by (simp add: is_upper_az_def is_lower_az_def)

lemma folded_not_ascii: "is_folded_letter c \<Longrightarrow> \<not> is_upper_az c \<and> \<not> is_lower_az c"
  by (auto simp: is_folded_letter_def is_upper_az_def is_lower_az_def)

lemma is_roman_letter: "is_roman c \<Longrightarrow> is_letter c"
  by (auto simp: is_roman_cases is_letter_def is_upper_az_def is_lower_az_def)

lemma upper_roman_upper: "is_upper_roman c \<Longrightarrow> is_upper_az c"
  by (auto simp: is_upper_roman_cases is_upper_az_def)

lemma is_roman_not_newline: "is_roman c \<Longrightarrow> c \<noteq> cp newline"
  by (auto simp: is_roman_cases newline_def)

text \<open>The classes of the matcher and those of the strings agree below 256, and the
  letter class is the union of the classes of the letters \<open>A\<close> to \<open>Z\<close>.\<close>

lemma is_unicode_space_cp: "is_unicode_space (cp c) = is_space c"
proof -
  have "n < 256 \<Longrightarrow>
      is_unicode_space n = (n \<in> {9, 10, 11, 12, 13, 28, 29, 30, 31, 32, 133, 160})" for n
    by (auto simp: is_unicode_space_def)
  from this [of "cp c"] show ?thesis by (simp add: is_space_def)
qed

lemma strip_code_points: "unicode_strip (code_points_of s) = code_points_of (strip s)"
  by (simp add: unicode_strip_def code_points_of_def strip_def lstrip_def rstrip_def
      dropWhile_map rev_map comp_def is_unicode_space_cp)

lemma is_letter_ignorecase:
  "is_letter n = list_ex (\<lambda>x. n \<in> set (ignorecase x)) ''ABCDEFGHIJKLMNOPQRSTUVWXYZ''"
  by (simp add: is_letter_def ignorecase_def is_upper_az_def is_lower_az_def Let_def) arith

subsection \<open>What each pattern captures as the number\<close>

lemma pat_numbered_number: "pat_numbered line = Some (n, g) \<Longrightarrow> digits n"
  unfolding pat_numbered_def
  by (auto split: Option.bind_splits dest: scan_digits_Some(1))

lemma pat_paren_number_number: "pat_paren_number line = Some (n, g) \<Longrightarrow> digits n"
  unfolding pat_paren_number_def
  by (auto split: Option.bind_splits dest: scan_digits_Some(1))

lemma pat_section_word_number: "pat_section_word line = Some (n, g) \<Longrightarrow> digits n"
  unfolding pat_section_word_def
  by (auto split: Option.bind_splits if_splits dest: scan_digits_Some(1))

lemma pat_subsection_number:
  "pat_subsection line = Some (n, g) \<Longrightarrow> dotted2 n"
  unfolding pat_subsection_def dotted2_def
  by (auto split: Option.bind_splits) (metis scan_digits_Some(1))

lemma pat_subsubsection_number:
  "pat_subsubsection line = Some (n, g) \<Longrightarrow> dotted3 n"
  unfolding pat_subsubsection_def dotted3_def
  by (auto split: Option.bind_splits) (metis scan_digits_Some(1))

lemma pat_letter_number:
  "pat_letter line = Some (n, g) \<Longrightarrow> \<exists>c. n = [c] \<and> is_letter c"
  unfolding pat_letter_def
  by (auto split: Option.bind_splits list.splits if_splits)

lemma pat_paren_letter_number:
  "pat_paren_letter line = Some (n, g) \<Longrightarrow> \<exists>c. n = [c] \<and> is_letter c"
  unfolding pat_paren_letter_def
  by (auto split: Option.bind_splits list.splits if_splits)

lemma pat_roman_number:
  "pat_roman line = Some (n, g) \<Longrightarrow> n \<noteq> [] \<and> list_all is_roman n"
  unfolding pat_roman_def list_all_iff
  by (auto split: Option.bind_splits if_splits dest: set_takeWhileD)

subsection \<open>The level of each shape\<close>

lemma level_digits: "digits n \<Longrightarrow> determine_section_level n = 1"
  using scan_digits_append [of n "[]"]
  by (simp add: determine_section_level_def shape_int_def at_end_def)

lemma level_dec2_parts:
  assumes "digits a" "digits b"
  shows "determine_section_level (a @ [cp CHR ''.''] @ b) = 2"
proof -
  have 1: "scan_digits (a @ [cp CHR ''.''] @ b) = Some (a, [cp CHR ''.''] @ b)"
    using assms(1) by (intro scan_digits_append) simp_all
  have 2: "scan_digits b = Some (b, [])"
    using scan_digits_append [OF assms(2), of "[]"] by simp
  from assms(2) have "b \<noteq> []" by (simp add: digits_def)
  then have "\<not> shape_int (a @ [cp CHR ''.''] @ b)"
    using 1 by (simp add: shape_int_def)
  moreover have "shape_dec2 (a @ [cp CHR ''.''] @ b)"
    using 1 2 by (simp add: shape_dec2_def at_end_def)
  ultimately show ?thesis by (simp add: determine_section_level_def)
qed

lemma level_dec3_parts:
  assumes "digits a" "digits b" "digits c"
  shows "determine_section_level (a @ [cp CHR ''.''] @ b @ [cp CHR ''.''] @ c) = 3"
proof -
  let ?n = "a @ [cp CHR ''.''] @ b @ [cp CHR ''.''] @ c"
  have 1: "scan_digits ?n = Some (a, [cp CHR ''.''] @ b @ [cp CHR ''.''] @ c)"
    using assms(1) by (intro scan_digits_append) simp_all
  have 2: "scan_digits (b @ [cp CHR ''.''] @ c) = Some (b, [cp CHR ''.''] @ c)"
    using assms(2) by (intro scan_digits_append) simp_all
  have 3: "scan_digits c = Some (c, [])"
    using scan_digits_append [OF assms(3), of "[]"] by simp
  have "\<not> shape_int ?n" using 1 by (simp add: shape_int_def)
  moreover have "\<not> shape_dec2 ?n" using 1 2 by (simp add: shape_dec2_def)
  moreover have "shape_dec3 ?n" using 1 2 3 by (simp add: shape_dec3_def at_end_def)
  ultimately show ?thesis by (simp add: determine_section_level_def)
qed

lemma level_dec2: "dotted2 n \<Longrightarrow> determine_section_level n = 2"
  unfolding dotted2_def using level_dec2_parts by blast

lemma level_dec3: "dotted3 n \<Longrightarrow> determine_section_level n = 3"
  unfolding dotted3_def using level_dec3_parts by blast

lemma not_digit_shapes:
  assumes "n \<noteq> []" "\<not> is_digit (hd n)"
  shows "\<not> shape_int n" "\<not> shape_dec2 n" "\<not> shape_dec3 n"
  using scan_digits_None [of n] assms
  by (simp_all add: shape_int_def shape_dec2_def shape_dec3_def)

lemma level_upper:
  assumes "is_upper_az c"
  shows "determine_section_level [c] = 1"
proof -
  from assms have "is_letter c" by (simp add: is_letter_def)
  then have "\<not> is_digit c" using digit_not_letter by blast
  then show ?thesis
    using not_digit_shapes [of "[c]"] assms
    by (simp add: determine_section_level_def shape_upper_def at_end_def)
qed

lemma level_lower:
  assumes "is_lower_az c"
  shows "determine_section_level [c] = 2"
proof -
  from assms have "is_letter c" by (simp add: is_letter_def)
  then have nd: "\<not> is_digit c" using digit_not_letter by blast
  from assms have nu: "\<not> is_upper_az c" using upper_not_lower by blast
  then have "\<not> is_upper_roman c" using upper_roman_upper by blast
  then have "\<not> shape_roman [c]" by (simp add: shape_roman_def)
  moreover have "\<not> shape_upper [c]" using nu by (simp add: shape_upper_def)
  moreover have "shape_lower [c]" using assms by (simp add: shape_lower_def at_end_def)
  ultimately show ?thesis
    using not_digit_shapes [of "[c]"] nd by (simp add: determine_section_level_def)
qed

lemma level_folded:
  assumes "is_folded_letter c"
  shows "determine_section_level [c] = 1"
proof -
  from assms have "is_letter c" by (simp add: is_letter_cases)
  then have "\<not> is_digit c" using digit_not_letter by blast
  then show ?thesis
    using not_digit_shapes [of "[c]"] folded_not_ascii [OF assms]
    by (simp add: determine_section_level_def shape_upper_def shape_lower_def)
qed

lemma level_roman:
  assumes "list_all is_roman n" "length n \<ge> 2"
  shows "determine_section_level n = 1"
proof -
  from assms(2) obtain c d r where n: "n = c # d # r"
    by (cases n; cases "tl n") auto
  with assms(1) have c: "is_roman c" and d: "is_roman d" by simp_all
  from c have "\<not> is_digit c" using is_roman_letter digit_not_letter by blast
  then have nd: "\<not> shape_int n" "\<not> shape_dec2 n" "\<not> shape_dec3 n"
    using not_digit_shapes [of n] n by simp_all
  from d have "d \<noteq> cp newline" by (rule is_roman_not_newline)
  then have "\<not> at_end (d # r)" by (auto simp: at_end_def)
  then have "\<not> shape_upper n" "\<not> shape_lower n"
    using n by (simp_all add: shape_upper_def shape_lower_def)
  with nd show ?thesis by (simp add: determine_section_level_def)
qed

lemma match_first_Some:
  "match_first ps line = Some (lvl, n, t) \<Longrightarrow>
     \<exists>p \<in> set ps. \<exists>g. p line = Some (n, g) \<and> lvl = determine_section_level n \<and>
        t = unicode_strip g \<and> is_valid_section t"
  by (induction ps) (auto simp: Let_def split: option.splits if_splits)

text \<open>
  Claim C6, as amended. A line is any list of code points. For every line accepted as
  a header, the level follows from the shape of the captured number, and the number
  has one of seven shapes: a run of decimal digits gives level 1; two groups of digits
  joined by a dot level 2; three groups level 3; one letter \<open>A\<close> to \<open>Z\<close> level 1; one
  letter \<open>a\<close> to \<open>z\<close> level 2; one of the letters \<open>U+0130\<close>, \<open>U+0131\<close>, \<open>U+017F\<close> and
  \<open>U+212A\<close>, which case-insensitive matching also takes for a letter, level 1; and two
  or more Roman-numeral letters, in either case, level 1.
\<close>

theorem section_level_from_number_shape:
  assumes "match_section_header line = Some (level, number, title)"
  shows "level = determine_section_level number \<and>
    ((digits number \<and> level = 1) \<or>
     (dotted2 number \<and> level = 2) \<or>
     (dotted3 number \<and> level = 3) \<or>
     (\<exists>c. number = [c] \<and> is_upper_az c \<and> level = 1) \<or>
     (\<exists>c. number = [c] \<and> is_lower_az c \<and> level = 2) \<or>
     (\<exists>c. number = [c] \<and> is_folded_letter c \<and> level = 1) \<or>
     (2 \<le> length number \<and> list_all is_roman number \<and> level = 1))"
proof -
  from assms obtain p g where p: "p \<in> set section_patterns" and m: "p line = Some (number, g)"
    and lvl: "level = determine_section_level number"
    unfolding match_section_header_def by (blast dest: match_first_Some)
  have int: ?thesis if "digits number"
    using that lvl level_digits [of number] by simp
  have dec2: ?thesis if "dotted2 number"
    using that lvl level_dec2 [of number] by simp
  have dec3: ?thesis if "dotted3 number"
    using that lvl level_dec3 [of number] by simp
  have letter: ?thesis if "number = [c]" "is_letter c" for c
    using that lvl level_upper [of c] level_lower [of c] level_folded [of c]
    by (auto simp: is_letter_cases)
  have roman: ?thesis if r: "number \<noteq> [] \<and> list_all is_roman number"
  proof (cases "2 \<le> length number")
    case True
    with r lvl level_roman [of number] show ?thesis by simp
  next
    case False
    from r have "1 \<le> length number" by (cases number) auto
    with False have "length number = 1" by linarith
    then obtain c where n: "number = [c]" by (auto simp: length_Suc_conv)
    with r have "is_letter c" by (simp add: is_roman_letter)
    with n show ?thesis by (rule letter)
  qed
  from p have "p = pat_numbered \<or> p = pat_subsection \<or> p = pat_subsubsection \<or>
      p = pat_letter \<or> p = pat_roman \<or> p = pat_section_word \<or> p = pat_paren_number \<or>
      p = pat_paren_letter"
    by (auto simp: section_patterns_def)
  then show ?thesis
  proof (elim disjE)
    assume "p = pat_numbered"
    with m show ?thesis by (intro int) (simp add: pat_numbered_number)
  next
    assume "p = pat_subsection"
    with m show ?thesis by (intro dec2) (simp add: pat_subsection_number)
  next
    assume "p = pat_subsubsection"
    with m show ?thesis by (intro dec3) (simp add: pat_subsubsection_number)
  next
    assume "p = pat_letter"
    with m pat_letter_number [of line number g]
    obtain c where "number = [c]" "is_letter c" by blast
    then show ?thesis by (rule letter)
  next
    assume "p = pat_roman"
    with m show ?thesis by (intro roman) (simp add: pat_roman_number)
  next
    assume "p = pat_section_word"
    with m show ?thesis by (intro int) (simp add: pat_section_word_number)
  next
    assume "p = pat_paren_number"
    with m show ?thesis by (intro int) (simp add: pat_paren_number_number)
  next
    assume "p = pat_paren_letter"
    with m pat_paren_letter_number [of line number g]
    obtain c where "number = [c]" "is_letter c" by blast
    then show ?thesis by (rule letter)
  qed
qed

lemmas char_class_defs = is_space_def is_terminator_def newline_def

lemmas header_defs = match_section_header_def section_patterns_def pat_numbered_def
  pat_subsection_def pat_subsubsection_def pat_letter_def pat_roman_def pat_section_word_def
  pat_paren_number_def pat_paren_letter_def scan_digits_def expect_def optional_def ws_title_def
  determine_section_level_def shape_int_def shape_dec2_def shape_dec3_def shape_upper_def
  shape_roman_def shape_lower_def at_end_def is_valid_section_def unicode_strip_def
  matches_word_def

lemma header_paren_letter:
  "match_section_header (code_points_of ''a) Title'') =
     Some (2, code_points_of ''a'', code_points_of ''Title'')"
  by (simp add: header_defs unicode_class_defs)

lemma header_subsection:
  "match_section_header (code_points_of ''1.1 Scope'') =
     Some (2, code_points_of ''1.1'', code_points_of ''Scope'')"
  by (simp add: header_defs unicode_class_defs)

text \<open>\<open>U+0131\<close>, the dotless small i, followed by \<open>. Title\<close>: the letter pattern accepts
  the line, and no shape of \<open>_determine_section_level\<close> fits the number.\<close>

lemma header_dotless_i:
  "match_section_header (305 # code_points_of ''. Title'') =
     Some (1, [305], code_points_of ''Title'')"
  by (simp add: header_defs unicode_class_defs)

text \<open>Two dotless small i: the Roman-numeral pattern accepts them.\<close>

lemma header_dotless_roman:
  "match_section_header (305 # 305 # code_points_of ''. Title'') =
     Some (1, [305, 305], code_points_of ''Title'')"
  by (simp add: header_defs unicode_class_defs)

text \<open>\<open>U+017F\<close>, the long s, before a parenthesis.\<close>

lemma header_long_s:
  "match_section_header (383 # code_points_of '') Title'') =
     Some (1, [383], code_points_of ''Title'')"
  by (simp add: header_defs unicode_class_defs)

lemma string_of_code_points [simp]: "string_of (code_points_of s) = s"
  by (simp add: string_of_def code_points_of_def map_idI)

theorem section_level_from_number_shape_witness:
  "match_section_header (code_points_of ''1.1 Scope'') =
     Some (2, code_points_of ''1.1'', code_points_of ''Scope'') \<and>
   (2::nat) = determine_section_level (code_points_of ''1.1'') \<and>
   match_section_header (code_points_of ''a) Title'') =
     Some (2, code_points_of ''a'', code_points_of ''Title'') \<and>
   (2::nat) = determine_section_level (code_points_of ''a'') \<and>
   match_section_header (305 # code_points_of ''. Title'') =
     Some (1, [305], code_points_of ''Title'') \<and>
   (1::nat) = determine_section_level [305]"
  using section_level_from_number_shape [OF header_subsection]
    section_level_from_number_shape [OF header_paren_letter]
    section_level_from_number_shape [OF header_dotless_i]
    header_subsection header_paren_letter header_dotless_i
  by simp

text \<open>The claim as stated gives level 1 to a letter captured from a header such as
  \<open>a) Title\<close>; the code gives level 2.\<close>

theorem paren_letter_header_level_counterexample:
  "match_section_header (code_points_of ''a) Title'') =
     Some (2, code_points_of ''a'', code_points_of ''Title'') \<and>
   is_lower_az (cp CHR ''a'') \<and>
   match_section_header (code_points_of ''a) Title'') \<noteq>
     Some (1, code_points_of ''a'', code_points_of ''Title'')"
  by (simp add: header_paren_letter is_lower_az_def)

subsection \<open>Splitting\<close>

text \<open>A delimiter can start only at a character of its trigger class \<open>T\<close>; a
  stretch free of such characters stays in one piece.\<close>

lemma split_by_no_delim:
  assumes "\<And>c cs. \<not> T c \<Longrightarrow> delim (c # cs) = 0" and "\<forall>c \<in> set xs. \<not> T c"
  shows "split_by delim acc xs = [rev acc @ xs]"
  using assms(2)
proof (induction xs arbitrary: acc)
  case Nil
  then show ?case by simp
next
  case (Cons c cs)
  then have "delim (c # cs) = 0" by (simp add: assms(1))
  moreover have "split_by delim (c # acc) cs = [rev (c # acc) @ cs]"
    by (rule Cons.IH) (simp add: Cons.prems)
  ultimately show ?case by simp
qed

lemma split_by_prefix:
  assumes "\<And>c cs. \<not> T c \<Longrightarrow> delim (c # cs) = 0" and "\<forall>c \<in> set xs. \<not> T c"
    and "delim (d @ rest) = length d" "d \<noteq> []"
  shows "split_by delim acc (xs @ d @ rest) = (rev acc @ xs) # split_by delim [] rest"
  using assms(2)
proof (induction xs arbitrary: acc)
  case Nil
  from assms(4) obtain c cs where d: "d = c # cs" by (cases d) auto
  with assms(3) show ?case by simp
next
  case (Cons c cs)
  then have "delim ((c # cs) @ d @ rest) = 0" by (simp add: assms(1))
  moreover have "split_by delim (c # acc) (cs @ d @ rest)
      = (rev (c # acc) @ cs) # split_by delim [] rest"
    by (rule Cons.IH) (simp add: Cons.prems)
  ultimately show ?case by simp
qed

lemma length_split_by_piece:
  "p \<in> set (split_by delim acc xs) \<Longrightarrow> length p \<le> length acc + length xs"
proof (induction delim acc xs rule: split_by.induct)
  case (1 delim piece)
  then show ?case by simp
next
  case (2 delim piece c cs)
  show ?case
  proof (cases "delim (c # cs)")
    case 0
    with "2.prems" "2.IH"(1) show ?thesis by fastforce
  next
    case (Suc k)
    with "2.prems" have "p = rev piece \<or> p \<in> set (split_by delim [] (drop k cs))" by simp
    then show ?thesis
    proof
      assume "p = rev piece" then show ?thesis by simp
    next
      assume "p \<in> set (split_by delim [] (drop k cs))"
      from "2.IH"(2) [OF Suc this] show ?thesis by simp
    qed
  qed
qed


lemma delim_newline_head: "c \<noteq> newline \<Longrightarrow> delim_newline (c # cs) = 0"
  by (simp add: delim_newline_def)

lemma delim_blank_line_head: "c \<noteq> newline \<Longrightarrow> delim_blank_line (c # cs) = 0"
  by (simp add: delim_blank_line_def)

lemma delim_terminators_head: "\<not> is_terminator c \<Longrightarrow> delim_terminators (c # cs) = 0"
  by (simp add: delim_terminators_def)

lemma delim_sentence_end_head: "\<not> is_terminator c \<Longrightarrow> delim_sentence_end (c # cs) = 0"
  by (simp add: delim_sentence_end_def)

lemma split_lines_plain: "newline \<notin> set xs \<Longrightarrow> split_lines xs = [xs]"
  unfolding split_lines_def
  using split_by_no_delim [of "\<lambda>c. c = newline" delim_newline xs "[]"]
  by (auto simp: delim_newline_head)

lemma split_lines_append:
  "newline \<notin> set xs \<Longrightarrow> split_lines (xs @ newline # rest) = xs # split_lines rest"
  unfolding split_lines_def
  using split_by_prefix [of "\<lambda>c. c = newline" delim_newline xs "[newline]" rest "[]"]
  by (auto simp: delim_newline_head delim_newline_def)

lemma split_paragraphs_plain: "newline \<notin> set xs \<Longrightarrow> split_paragraphs xs = [xs]"
  unfolding split_paragraphs_def
  using split_by_no_delim [of "\<lambda>c. c = newline" delim_blank_line xs "[]"]
  by (auto simp: delim_blank_line_head)

lemma split_paragraphs_append:
  "newline \<notin> set xs \<Longrightarrow>
   split_paragraphs (xs @ newline # newline # rest) = xs # split_paragraphs rest"
  unfolding split_paragraphs_def
  using split_by_prefix [of "\<lambda>c. c = newline" delim_blank_line xs "[newline, newline]" rest "[]"]
  by (auto simp: delim_blank_line_head delim_blank_line_def)

lemma split_sentence_ends_plain:
  "\<forall>c \<in> set xs. \<not> is_terminator c \<Longrightarrow> split_sentence_ends xs = [xs]"
  unfolding split_sentence_ends_def
  using split_by_no_delim [of is_terminator delim_sentence_end xs "[]"]
  by (auto simp: delim_sentence_end_head)

subsection \<open>Trimmed strings\<close>

lemma strip_plain: "xs \<noteq> [] \<Longrightarrow> \<not> is_space (hd xs) \<Longrightarrow> \<not> is_space (last xs) \<Longrightarrow> strip xs = xs"
  by (rule trimmed_strip) (simp add: trimmed_def)

lemma strip_Nil [simp]: "strip [] = []"
  by (simp add: strip_def lstrip_def rstrip_def)

lemma length_rstrip_le: "length (rstrip s) \<le> length s"
  unfolding rstrip_def using length_dropWhile_le [of is_space "rev s"] by simp

lemma length_strip_le: "length (strip s) \<le> length s"
  unfolding strip_def lstrip_def
  using length_rstrip_le [of "dropWhile is_space s"] length_dropWhile_le [of is_space s]
  by linarith

subsection \<open>Lines that cannot be headers\<close>

lemma no_header_first_char:
  assumes "line \<noteq> []" "\<not> is_digit (hd line)" "\<not> is_letter (hd line)"
  shows "match_section_header line = None"
proof -
  from assms(1) obtain c r where line: "line = c # r" by (cases line) auto
  with assms have c: "\<not> is_digit c" "\<not> is_letter c" by simp_all
  have sd: "scan_digits line = None" using line c by (simp add: scan_digits_None)
  have rom: "takeWhile is_roman line = []"
    using line c is_roman_letter [of c] by auto
  have "c \<notin> set (ignorecase CHR ''S'')"
    using c(2) by (auto simp: ignorecase_def is_letter_def is_upper_az_def is_lower_az_def Let_def)
  then have sec: "\<not> matches_word ''Section'' (take 7 line)"
    using line by (simp add: matches_word_def)
  have "pat_numbered line = None" "pat_subsection line = None" "pat_subsubsection line = None"
    "pat_paren_number line = None"
    using sd by (simp_all add: pat_numbered_def pat_subsection_def pat_subsubsection_def
        pat_paren_number_def)
  moreover have "pat_letter line = None" "pat_paren_letter line = None"
    using line c by (simp_all add: pat_letter_def pat_paren_letter_def)
  moreover have "pat_roman line = None" using rom by (simp add: pat_roman_def)
  moreover have "pat_section_word line = None" using sec by (simp add: pat_section_word_def)
  ultimately show ?thesis
    by (simp add: match_section_header_def section_patterns_def)
qed

lemma no_header_first_code_point:
  assumes "s \<noteq> []" "\<not> is_digit (cp (hd s))" "\<not> is_letter (cp (hd s))"
  shows "match_section_header (code_points_of s) = None"
  using assms by (intro no_header_first_char) (simp_all add: code_points_of_def hd_map)

subsection \<open>Texts without headers\<close>

lemma detect_step_no_header:
  "no_header_line l \<Longrightarrow> detect_step t ([], None, []) (i, l) = ([], None, [])"
  by (auto simp: detect_step_def no_header_line_def Let_def)

lemma detect_fold_no_header:
  "list_all (\<lambda>il. no_header_line (snd il)) ils \<Longrightarrow>
   foldl (detect_step t) ([], None, []) ils = ([], None, [])"
  by (induction ils) (auto simp: detect_step_no_header)

lemma list_all_enumerate:
  "list_all P xs \<Longrightarrow> list_all (\<lambda>il. P (snd il)) (enumerate n xs)"
  by (induction xs arbitrary: n) auto

lemma detect_sections_headerless:
  "headerless t \<Longrightarrow> detect_sections t = [document_content_section t]"
  unfolding headerless_def detect_sections_def document_content_section_def
  by (simp add: detect_fold_no_header list_all_enumerate)

subsection \<open>Subdivision\<close>

lemma sub_chunks_loop_enumerate:
  "sub_chunks_loop H md (enumerate n ps) =
     map (\<lambda>k. sub_chunk H md k (ps ! (k - n)))
       (filter (\<lambda>k. 30 \<le> length (strip (ps ! (k - n)))) [n..<n + length ps])"
proof (induction ps arbitrary: n)
  case Nil
  then show ?case by simp
next
  case (Cons p ps)
  have up: "[n..<n + length (p # ps)] = n # [Suc n..<Suc n + length ps]"
  proof -
    have "n < n + length (p # ps)" by simp
    then have "[n..<n + length (p # ps)] = n # [Suc n..<n + length (p # ps)]"
      by (rule upt_conv_Cons)
    moreover have "n + length (p # ps) = Suc n + length ps" by simp
    ultimately show ?thesis by (simp only:)
  qed
  have f: "filter (\<lambda>k. 30 \<le> length (strip ((p # ps) ! (k - n)))) [Suc n..<Suc n + length ps]
      = filter (\<lambda>k. 30 \<le> length (strip (ps ! (k - Suc n)))) [Suc n..<Suc n + length ps]"
    by (rule filter_cong) (auto simp: nth_Cons' Suc_diff_le)
  have m: "map (\<lambda>k. sub_chunk H md k ((p # ps) ! (k - n)))
        (filter (\<lambda>k. 30 \<le> length (strip (ps ! (k - Suc n)))) [Suc n..<Suc n + length ps])
      = map (\<lambda>k. sub_chunk H md k (ps ! (k - Suc n)))
        (filter (\<lambda>k. 30 \<le> length (strip (ps ! (k - Suc n)))) [Suc n..<Suc n + length ps])"
    by (rule map_cong) (auto simp: nth_Cons' Suc_diff_le)
  have "sub_chunks_loop H md (enumerate n (p # ps)) =
      (if 30 \<le> length (strip p) then [sub_chunk H md n p] else [])
        @ sub_chunks_loop H md (enumerate (Suc n) ps)"
    by (simp add: not_less)
  also have "sub_chunks_loop H md (enumerate (Suc n) ps) =
      map (\<lambda>k. sub_chunk H md k ((p # ps) ! (k - n)))
        (filter (\<lambda>k. 30 \<le> length (strip ((p # ps) ! (k - n)))) [Suc n..<Suc n + length ps])"
    by (simp only: Cons.IH f m)
  finally show ?case
    unfolding up by (simp del: upt_Suc)
qed

lemma sub_chunks_loop_kept:
  "sub_chunks_loop H md (enumerate 0 ps) =
     map (\<lambda>k. sub_chunk H md k (ps ! k)) (kept_positions ps)"
  using sub_chunks_loop_enumerate [of H md 0 ps] by (simp add: kept_positions_def)

lemma subdivide_large_section_result:
  assumes "c_text c = Some content" "c_metadata c = Some md"
  shows "subdivide_large_section H c =
     Inr (if kept_positions (sub_paragraphs content) = [] then [c]
          else map (\<lambda>k. sub_chunk H md k (sub_paragraphs content ! k))
                 (kept_positions (sub_paragraphs content)))"
  using assms by (simp add: subdivide_large_section_def sub_chunks_loop_kept Let_def)

lemma kept_positions_sorted: "sorted_wrt (<) (kept_positions ps)"
  unfolding kept_positions_def by (simp add: sorted_wrt_filter)

lemma kept_positions_set:
  "k \<in> set (kept_positions ps) \<longleftrightarrow> k < length ps \<and> 30 \<le> length (strip (ps ! k))"
  unfolding kept_positions_def by auto

subsection \<open>The length of a piece\<close>

text \<open>The characters of the sentences, two more for each sentence.\<close>

lemma length_takeWhile_dropWhile:
  "length (takeWhile P s) + length (takeWhile Q (dropWhile P s)) \<le> length s"
proof -
  have "length (takeWhile Q (dropWhile P s)) \<le> length (dropWhile P s)"
    by (rule length_takeWhile_le)
  moreover have "length (takeWhile P s) + length (dropWhile P s) = length s"
    by (metis length_append takeWhile_dropWhile_id)
  ultimately show ?thesis by linarith
qed

lemma delim_sentence_end_bounds:
  "delim_sentence_end s = 0 \<or> (2 \<le> delim_sentence_end s \<and> delim_sentence_end s \<le> length s)"
proof (cases "takeWhile is_terminator s \<noteq> [] \<and>
    takeWhile is_space (dropWhile is_terminator s) \<noteq> []")
  case True
  then have "1 \<le> length (takeWhile is_terminator s)"
    "1 \<le> length (takeWhile is_space (dropWhile is_terminator s))"
    by (simp_all add: Suc_le_eq)
  with True length_takeWhile_dropWhile [of is_terminator s is_space]
  show ?thesis by (simp add: delim_sentence_end_def Let_def)
next
  case False
  then show ?thesis by (auto simp: delim_sentence_end_def Let_def)
qed

lemma weight_split_sentence_ends:
  "(\<Sum>p \<leftarrow> split_by delim_sentence_end acc s. length p + 2) \<le> length acc + length s + 2"
proof (induction delim_sentence_end acc s rule: split_by.induct)
  case (1 piece)
  then show ?case by simp
next
  case (2 piece c cs)
  show ?case
  proof (cases "delim_sentence_end (c # cs)")
    case 0
    with "2.hyps"(1) show ?thesis by simp
  next
    case (Suc k)
    with delim_sentence_end_bounds [of "c # cs"] have k: "1 \<le> k" "k \<le> length cs" by simp_all
    from "2.hyps"(2) [OF Suc]
    have "(\<Sum>p \<leftarrow> split_by delim_sentence_end [] (drop k cs). length p + 2)
        \<le> length (drop k cs) + 2" by simp
    with k Suc show ?thesis by simp
  qed
qed

lemma length_strip_trailing_space:
  assumes "s \<noteq> []" "is_space (last s)"
  shows "length (strip s) < length s"
proof (cases "lstrip s = []")
  case True
  with assms(1) show ?thesis by (simp add: strip_def rstrip_def)
next
  case False
  then have "last (lstrip s) = last s"
    unfolding lstrip_def by (rule last_dropWhile)
  with assms(2) False obtain ys where ys: "lstrip s = ys @ [last s]"
    by (metis append_butlast_last_id)
  then have "rev (lstrip s) = last s # rev ys" by simp
  then have "length (rstrip (lstrip s)) \<le> length ys"
    unfolding rstrip_def using assms(2) length_dropWhile_le [of is_space "rev ys"] by simp
  also have "\<dots> < length (lstrip s)" using ys by simp
  also have "\<dots> \<le> length s" unfolding lstrip_def by (rule length_dropWhile_le)
  finally show ?thesis by (simp add: strip_def)
qed

lemma pack_sentences_length:
  assumes "p \<in> set (pack_sentences ss cur acc)" "cur = [] \<or> is_space (last cur)"
  shows "p \<in> set acc \<or> length p + 1 \<le> length cur + (\<Sum>s \<leftarrow> ss. length s + 2)"
  using assms
proof (induction ss arbitrary: cur acc)
  case Nil
  then show ?case
    using length_strip_trailing_space [of cur] by (auto split: if_splits)
next
  case (Cons s ss)
  have sp: "is_space CHR '' ''" by (simp add: is_space_def)
  show ?case
  proof (cases "length (cur @ s) < 1000")
    case True
    with Cons.prems(1) have "p \<in> set (pack_sentences ss (cur @ s @ ''. '') acc)" by simp
    from Cons.IH [OF this] sp show ?thesis by auto
  next
    case False
    let ?acc = "if cur \<noteq> [] then acc @ [strip cur] else acc"
    from False Cons.prems(1) have "p \<in> set (pack_sentences ss (s @ ''. '') ?acc)" by simp
    from Cons.IH [OF this] sp
    have "p \<in> set ?acc \<or> length p + 1 \<le> length (s @ ''. '') + (\<Sum>s \<leftarrow> ss. length s + 2)"
      by simp
    then show ?thesis
      using length_strip_trailing_space [of cur] Cons.prems(2)
      by (auto split: if_splits)
  qed
qed

lemma sub_paragraphs_length:
  assumes "p \<in> set (sub_paragraphs content)"
  shows "length p \<le> length content + 1"
proof (cases "length (filter (\<lambda>p. p \<noteq> []) (map strip (split_paragraphs content))) \<le> 1")
  case True
  with assms have "p \<in> set (pack_sentences (split_sentence_ends content) [] [])"
    by (simp add: sub_paragraphs_def Let_def)
  from pack_sentences_length [OF this]
  have "length p + 1 \<le> (\<Sum>s \<leftarrow> split_sentence_ends content. length s + 2)" by simp
  also have "\<dots> \<le> length content + 2"
    unfolding split_sentence_ends_def
    using weight_split_sentence_ends [of "[]" content] by simp
  finally show ?thesis by simp
next
  case False
  with assms obtain q where q: "q \<in> set (split_paragraphs content)" and p: "p = strip q"
    by (auto simp: sub_paragraphs_def Let_def)
  from q have "length q \<le> length content"
    unfolding split_paragraphs_def using length_split_by_piece by fastforce
  with p length_strip_le [of q] show ?thesis by simp
qed

subsection \<open>The chunks of a text\<close>

lemma refine_chunks_single:
  assumes "c_metadata c = Some md"
  shows "refine_chunks H [c] =
     (if md_char_count md > 2000 then subdivide_large_section H c else Inr [c])"
  using assms by (simp add: subdivide_large_section_def split: sum.splits option.splits)

lemma section_chunk_fields [simp]:
  "c_text (section_chunk H f i s) = Some (sec_content s)"
  "c_content_hash (section_chunk H f i s) = Some (generate_content_hash H (sec_content s))"
  "c_sentence_hashes (section_chunk H f i s) = Some (generate_sentence_hashes H (sec_content s))"
  "map_option md_char_count (c_metadata (section_chunk H f i s)) = Some (length (sec_content s))"
  "map_option md_chunk_index (c_metadata (section_chunk H f i s)) = Some (IntIdx i)"
  "c_metadata (section_chunk H f i s) \<noteq> None"
  by (simp_all add: section_chunk_def Let_def)

lemma create_section_chunks_headerless:
  assumes "headerless t"
  shows "create_section_chunks H t f =
     (if length (strip t) < 50 then Inr []
      else if length (strip t) \<le> 2000
        then Inr [section_chunk H f 0 (document_content_section t)]
      else subdivide_large_section H (section_chunk H f 0 (document_content_section t)))"
proof -
  let ?c = "section_chunk H f 0 (document_content_section t)"
  obtain md where md: "c_metadata ?c = Some md" and cc: "md_char_count md = length (strip t)"
    by (simp add: section_chunk_def Let_def document_content_section_def)
  have "create_section_chunks H t f =
      refine_chunks H (build_chunks H f [(0, document_content_section t)])"
    by (simp add: create_section_chunks_def detect_sections_headerless [OF assms])
  also have "\<dots> = (if length (strip t) < 50 then Inr [] else refine_chunks H [?c])"
    by (simp add: document_content_section_def)
  finally show ?thesis
    using refine_chunks_single [OF md, of H] cc by simp
qed

subsection \<open>The example texts\<close>

lemma star_class [simp]:
  "\<not> is_space CHR ''*''" "\<not> is_terminator CHR ''*''" "CHR ''*'' \<noteq> newline"
  by (simp_all add: char_class_defs)

lemma star_code_point [simp]: "\<not> is_digit 42" "\<not> is_letter 42"
  by (simp_all add: unicode_class_defs)

lemma set_stars: "c \<in> set (stars n) \<Longrightarrow> c = CHR ''*''"
  by (simp add: stars_def)

lemma length_stars [simp]: "length (stars n) = n"
  by (simp add: stars_def)

lemma stars_ends: "0 < n \<Longrightarrow> hd (stars n) = CHR ''*'' \<and> last (stars n) = CHR ''*'' \<and> stars n \<noteq> []"
  by (cases n) (auto simp: stars_def)

lemma strip_stars [simp]: "strip (stars n) = stars n"
proof (cases n)
  case 0
  then show ?thesis by (simp add: stars_def)
next
  case (Suc m)
  then show ?thesis using stars_ends [of n] by (simp add: strip_plain)
qed

lemma newline_stars [simp]: "newline \<notin> set (stars n)"
  by (auto simp: stars_def newline_def)

lemma no_header_stars: "no_header_line (stars n)"
proof (cases n)
  case 0
  then show ?thesis by (simp add: no_header_line_def stars_def)
next
  case (Suc m)
  then have "match_section_header (code_points_of (stars n)) = None"
    using stars_ends [of n] by (intro no_header_first_code_point) simp_all
  then show ?thesis by (simp add: no_header_line_def)
qed

lemma no_header_Nil: "no_header_line []"
  by (simp add: no_header_line_def)

lemma headerless_stars: "headerless (stars n)"
  by (simp add: headerless_def split_lines_plain no_header_stars)

lemma split_lines_two_paragraphs: "split_lines (two_paragraphs n) = [stars n, [], stars n]"
proof -
  have "split_lines (two_paragraphs n) = stars n # split_lines ([] @ newline # stars n)"
    unfolding two_paragraphs_def by (simp add: split_lines_append)
  also have "split_lines ([] @ newline # stars n) = [] # split_lines (stars n)"
    by (rule split_lines_append) simp
  finally show ?thesis by (simp add: split_lines_plain)
qed

lemma headerless_two_paragraphs: "headerless (two_paragraphs n)"
  by (simp add: headerless_def split_lines_two_paragraphs no_header_stars no_header_Nil)

lemma length_two_paragraphs [simp]: "length (two_paragraphs n) = 2 * n + 2"
  by (simp add: two_paragraphs_def)

lemma strip_two_paragraphs: "0 < n \<Longrightarrow> strip (two_paragraphs n) = two_paragraphs n"
  using stars_ends [of n] by (intro strip_plain) (simp_all add: two_paragraphs_def)

lemma split_paragraphs_two_paragraphs:
  "split_paragraphs (two_paragraphs n) = [stars n, stars n]"
  unfolding two_paragraphs_def by (simp add: split_paragraphs_append split_paragraphs_plain)

lemma sub_paragraphs_two_paragraphs:
  "0 < n \<Longrightarrow> sub_paragraphs (two_paragraphs n) = [stars n, stars n]"
  using stars_ends [of n]
  by (simp add: sub_paragraphs_def split_paragraphs_two_paragraphs)

lemma kept_positions_two: "30 \<le> n \<Longrightarrow> kept_positions [stars n, stars n] = [0, 1]"
  by (simp add: kept_positions_def upt_conv_Cons)

lemma strip_stars_dot: "0 < n \<Longrightarrow> strip (stars n @ ''. '') = stars n @ ''.''"
proof -
  assume n: "0 < n"
  have "lstrip (stars n @ ''. '') = stars n @ ''. ''"
    using stars_ends [OF n] by (intro lstrip_eq) simp
  moreover have "rstrip (stars n @ ''. '') = stars n @ ''.''"
    by (simp add: rstrip_def is_space_def)
  ultimately show ?thesis by (simp add: strip_def)
qed

lemma sub_paragraphs_stars:
  assumes "1000 \<le> n"
  shows "sub_paragraphs (stars n) = [stars n @ ''.'']"
proof -
  from assms have n: "0 < n" by simp
  have "split_paragraphs (stars n) = [stars n]" by (simp add: split_paragraphs_plain)
  moreover have "split_sentence_ends (stars n) = [stars n]"
    by (rule split_sentence_ends_plain) (auto dest: set_stars)
  moreover have "stars n \<noteq> []" using stars_ends [OF n] by simp
  ultimately show ?thesis
    using assms strip_stars_dot [OF n] by (simp add: sub_paragraphs_def)
qed

subsection \<open>Documents without headers\<close>

text \<open>
  Claim C7, as amended. For every text in which no line is taken for a header,
  \<open>detect_sections\<close> returns exactly one section, of level 1, number \<open>1\<close>, title
  \<open>Document Content\<close>, whose content is the trimmed text. When the trimmed text has at
  least 50 and at most 2000 characters, \<open>create_section_chunks\<close> returns exactly one
  chunk, built from that section; under 50 characters it returns none; over 2000
  characters it returns what the subdivision of that chunk returns.
\<close>

theorem headerless_document_single_section:
  assumes "headerless t"
  shows "detect_sections t =
      [\<lparr>sec_level = 1, sec_number = ''1'', sec_title = ''Document Content'',
        sec_content = strip t, sec_start_pos = 0, sec_end_pos = length t,
        sec_parent_section = None\<rparr>] \<and>
    (length (strip t) < 50 \<longrightarrow> create_section_chunks H t filename = Inr []) \<and>
    (50 \<le> length (strip t) \<and> length (strip t) \<le> 2000 \<longrightarrow>
       create_section_chunks H t filename
         = Inr [section_chunk H filename 0 (document_content_section t)] \<and>
       c_text (section_chunk H filename 0 (document_content_section t)) = Some (strip t)) \<and>
    (2000 < length (strip t) \<longrightarrow>
       create_section_chunks H t filename
         = subdivide_large_section H (section_chunk H filename 0 (document_content_section t)))"
  using detect_sections_headerless [OF assms] create_section_chunks_headerless [OF assms, of H filename]
  by (simp add: document_content_section_def)

theorem headerless_document_single_section_witness:
  "headerless (stars 60) \<and> 50 \<le> length (strip (stars 60)) \<and> length (strip (stars 60)) \<le> 2000 \<and>
   detect_sections (stars 60) =
      [\<lparr>sec_level = 1, sec_number = ''1'', sec_title = ''Document Content'',
        sec_content = stars 60, sec_start_pos = 0, sec_end_pos = 60,
        sec_parent_section = None\<rparr>] \<and>
   create_section_chunks toy_digest (stars 60) ''sop.txt''
     = Inr [section_chunk toy_digest ''sop.txt'' 0 (document_content_section (stars 60))]"
  using headerless_document_single_section [OF headerless_stars, of 60 toy_digest "''sop.txt''"]
    headerless_stars [of 60]
  by simp

text \<open>A text without headers, of 2202 characters in two paragraphs, gives two chunks.\<close>

theorem headerless_document_two_chunks_counterexample:
  "headerless (two_paragraphs 1100) \<and>
   50 \<le> length (strip (two_paragraphs 1100)) \<and>
   length (chunks_of (create_section_chunks toy_digest (two_paragraphs 1100) ''sop.txt'')) = 2"
proof -
  let ?t = "two_paragraphs 1100"
  let ?c = "section_chunk toy_digest ''sop.txt'' 0 (document_content_section ?t)"
  have st: "strip ?t = ?t" by (rule strip_two_paragraphs) simp
  obtain md where md: "c_metadata ?c = Some md"
    by (simp add: section_chunk_def Let_def)
  have tx: "c_text ?c = Some ?t"
    by (simp add: document_content_section_def st)
  have "create_section_chunks toy_digest ?t ''sop.txt'' = subdivide_large_section toy_digest ?c"
    using create_section_chunks_headerless [OF headerless_two_paragraphs, of toy_digest 1100 "''sop.txt''"]
    by (simp add: st)
  also have "\<dots> = Inr (map (\<lambda>k. sub_chunk toy_digest md k ([stars 1100, stars 1100] ! k)) [0, 1])"
    using subdivide_large_section_result [OF tx md, of toy_digest]
    by (simp add: sub_paragraphs_two_paragraphs kept_positions_two)
  finally have "length (chunks_of (create_section_chunks toy_digest ?t ''sop.txt'')) = 2"
    by (simp add: chunks_of_def)
  with headerless_two_paragraphs [of 1100] st show ?thesis by simp
qed

subsection \<open>Subdivision of oversized sections\<close>

lemma sub_chunk_fields [simp]:
  "c_text (sub_chunk H md k para) = Some para"
  "c_content_hash (sub_chunk H md k para) = Some (generate_content_hash H para)"
  "c_sentence_hashes (sub_chunk H md k para) = None"
  "map_option md_chunk_index (c_metadata (sub_chunk H md k para))
     = Some (StrIdx (str_of_index (md_chunk_index md) @ ''.'' @ str_of_nat k))"
  "map_option md_chunk_type (c_metadata (sub_chunk H md k para)) = Some ''section_subdivision''"
  "map_option md_sub_chunk_index (c_metadata (sub_chunk H md k para)) = Some (Some k)"
  by (simp_all add: sub_chunk_def Let_def)

lemma first_sub_index: "str_of_index (IntIdx 0) @ CHR ''.'' # str_of_nat 0 = ''0.0''"
  by (simp add: str_of_index_def str_of_nat.simps char_of_def bit_Suc_0_iff)

text \<open>
  Claim C8. A section of more than 2000 characters is to be subdivided into at least
  two sub-chunks, none longer than the section. The document of 2500 asterisks has no
  header, so it is one section of 2500 characters, over the threshold of the builder.
  It has no blank line and no sentence end, so \<open>_subdivide_large_section\<close> takes the
  sentence path, which appends \<open>". "\<close> to the only fragment and trims it:
  \<open>create_section_chunks\<close> returns a single sub-chunk, with the sub-index \<open>0.0\<close>, whose
  text is the section followed by a period. That text has 2501 characters, one more
  than the section, and the content hash is the hash of a text that the document does
  not contain.
\<close>

theorem oversized_section_single_longer_sub_chunk:
  "detect_sections (stars 2500) = [document_content_section (stars 2500)] \<and>
   sec_content (document_content_section (stars 2500)) = stars 2500 \<and>
   length (stars 2500) = 2500 \<and>
   map (\<lambda>c. (c_text c, c_content_hash c, map_option md_chunk_index (c_metadata c),
             map_option md_chunk_type (c_metadata c)))
     (chunks_of (create_section_chunks toy_digest (stars 2500) ''sop.txt''))
     = [(Some (stars 2500 @ ''.''), Some (generate_content_hash toy_digest (stars 2500 @ ''.'')),
         Some (StrIdx ''0.0''), Some ''section_subdivision'')] \<and>
   length (stars 2500 @ ''.'') = 2501"
proof -
  let ?t = "stars 2500"
  let ?c = "section_chunk toy_digest ''sop.txt'' 0 (document_content_section ?t)"
  obtain md where md: "c_metadata ?c = Some md" and idx: "md_chunk_index md = IntIdx 0"
    by (simp add: section_chunk_def Let_def)
  have tx: "c_text ?c = Some ?t"
    by (simp add: document_content_section_def)
  have sp: "sub_paragraphs ?t = [?t @ ''.'']" by (rule sub_paragraphs_stars) simp
  have st: "strip (?t @ ''.'') = ?t @ ''.''"
    using stars_ends [of 2500] by (intro strip_plain) (simp_all add: is_space_def)
  have kp: "kept_positions [?t @ ''.''] = [0]"
    by (simp add: kept_positions_def st)
  have ds: "detect_sections ?t = [document_content_section ?t]"
    using detect_sections_headerless [OF headerless_stars, of 2500]
    by (simp add: document_content_section_def)
  have "create_section_chunks toy_digest ?t ''sop.txt'' = subdivide_large_section toy_digest ?c"
    using create_section_chunks_headerless [OF headerless_stars, of toy_digest 2500 "''sop.txt''"]
    by simp
  also have "\<dots> = Inr [sub_chunk toy_digest md 0 (?t @ ''.'')]"
    using subdivide_large_section_result [OF tx md, of toy_digest]
    by (simp add: sp kp)
  finally have "chunks_of (create_section_chunks toy_digest ?t ''sop.txt'')
      = [sub_chunk toy_digest md 0 (?t @ ''.'')]"
    by (simp add: chunks_of_def)
  then show ?thesis
    using ds idx by (simp add: first_sub_index document_content_section_def)
qed

lemma demo_two_chunk_fields:
  "c_text demo_two_chunk = Some (two_paragraphs 40)" "c_metadata demo_two_chunk = Some demo_metadata"
  by (simp_all add: demo_two_chunk_def)

subsection \<open>Sentence hashes in the index\<close>

lemma add_section_sentence_frame [simp]:
  "sentence_hash_to_documents (add_section d h r m) = sentence_hash_to_documents m"
  "document_to_sentence_hashes (add_section d h r m) = document_to_sentence_hashes m"
  by (simp_all add: add_section_def)

lemma add_sentences_None [simp]: "c_sentence_hashes c = None \<Longrightarrow> add_sentences d c m = m"
  by (simp add: add_sentences_def)

lemma add_loop_no_sentences:
  "\<forall>c \<in> set cs. c_sentence_hashes c = None \<Longrightarrow>
   sentence_hash_to_documents (snd (add_loop d cs m)) = sentence_hash_to_documents m \<and>
   document_to_sentence_hashes (snd (add_loop d cs m)) = document_to_sentence_hashes m"
  by (induction cs arbitrary: m) (auto split: option.splits)

lemma maps_add_document_chunks: "maps (add_document_chunks d cs s) = snd (add_loop d cs (maps s))"
  by (simp add: add_document_chunks_def save_data_def split: prod.splits option.splits)

lemma add_document_chunks_no_sentences:
  assumes "\<forall>c \<in> set cs. c_sentence_hashes c = None"
  shows "sentence_hash_to_documents (maps (add_document_chunks d cs s))
       = sentence_hash_to_documents (maps s)"
    and "document_to_sentence_hashes (maps (add_document_chunks d cs s))
       = document_to_sentence_hashes (maps s)"
  using add_loop_no_sentences [OF assms, of d "maps s"]
  by (simp_all add: maps_add_document_chunks)

lemma compare_documents_sentence_level_unknown:
  assumes "document_to_sentence_hashes (maps s) d = None"
  shows "fst (compare_documents_sentence_level d e s)
       = SentenceCompareError ''One or both documents not found''"
    and "fst (compare_documents_sentence_level e d s)
       = SentenceCompareError ''One or both documents not found''"
  using assms by (simp_all add: compare_documents_sentence_level_def split: option.splits)

lemma add_sentence_keeps:
  "document_to_sentence_hashes m d \<noteq> None \<Longrightarrow>
   document_to_sentence_hashes (add_sentence d' c sd m) d \<noteq> None"
  by (simp add: add_sentence_def Let_def)

lemma fold_add_sentence_keeps:
  "document_to_sentence_hashes m d \<noteq> None \<Longrightarrow>
   document_to_sentence_hashes (fold (add_sentence d' c) sds m) d \<noteq> None"
proof (induction sds arbitrary: m)
  case Nil
  then show ?case by simp
next
  case (Cons a sds)
  from Cons.prems have "document_to_sentence_hashes (add_sentence d' c a m) d \<noteq> None"
    by (rule add_sentence_keeps)
  from Cons.IH [OF this] show ?case by simp
qed

lemma add_sentences_enters:
  assumes "c_sentence_hashes c = Some (sd # sds)" "sd_sentence_hash sd \<noteq> []"
  shows "document_to_sentence_hashes (add_sentences d c m) d \<noteq> None"
proof -
  have "document_to_sentence_hashes (add_sentence d c sd m) d \<noteq> None"
    using assms(2) by (simp add: add_sentence_def Let_def)
  then show ?thesis
    using assms(1) by (simp add: add_sentences_def fold_add_sentence_keeps)
qed

subsection \<open>The text of short paragraphs\<close>

lemma short_paragraph_facts:
  "newline \<notin> set short_paragraph" "short_paragraph \<noteq> []" "length short_paragraph = 20"
  "hd short_paragraph = CHR ''-''" "last short_paragraph = CHR ''.''"
  by (simp_all add: short_paragraph_def newline_def)

lemma strip_short_paragraph: "strip short_paragraph = short_paragraph"
  by (rule strip_plain) (simp_all add: short_paragraph_facts is_space_def)

lemma no_header_short_paragraph: "no_header_line short_paragraph"
proof -
  have "match_section_header (code_points_of short_paragraph) = None"
    by (rule no_header_first_code_point)
       (simp_all add: short_paragraph_facts unicode_class_defs)
  then show ?thesis by (simp add: no_header_line_def strip_short_paragraph)
qed

lemma short_paragraphs_0: "short_paragraphs 0 = short_paragraph"
  by (simp add: short_paragraphs_def)

lemma short_paragraphs_Suc:
  "short_paragraphs (Suc n) = short_paragraph @ newline # newline # short_paragraphs n"
  by (simp add: short_paragraphs_def)

lemma length_short_paragraphs: "length (short_paragraphs n) = 20 + 22 * n"
  by (induction n) (simp_all add: short_paragraphs_0 short_paragraphs_Suc short_paragraph_facts)

lemma short_paragraphs_ends:
  "short_paragraphs n \<noteq> [] \<and> hd (short_paragraphs n) = CHR ''-'' \<and>
   last (short_paragraphs n) = CHR ''.''"
  by (induction n) (simp_all add: short_paragraphs_0 short_paragraphs_Suc short_paragraph_facts)

lemma strip_short_paragraphs: "strip (short_paragraphs n) = short_paragraphs n"
  using short_paragraphs_ends [of n] by (intro strip_plain) (simp_all add: is_space_def)

lemma headerless_short_paragraphs: "headerless (short_paragraphs n)"
  unfolding headerless_def
proof (induction n)
  case 0
  then show ?case
    by (simp add: short_paragraphs_0 split_lines_plain short_paragraph_facts
        no_header_short_paragraph)
next
  case (Suc n)
  have "split_lines (short_paragraphs (Suc n))
      = short_paragraph # split_lines ([] @ newline # short_paragraphs n)"
    by (simp add: short_paragraphs_Suc split_lines_append short_paragraph_facts)
  also have "split_lines ([] @ newline # short_paragraphs n) = [] # split_lines (short_paragraphs n)"
    by (rule split_lines_append) simp
  finally show ?case
    using Suc by (simp add: no_header_short_paragraph no_header_Nil)
qed

lemma split_paragraphs_short_paragraphs:
  "split_paragraphs (short_paragraphs n) = replicate (Suc n) short_paragraph"
  by (induction n)
     (simp_all add: short_paragraphs_0 short_paragraphs_Suc split_paragraphs_plain
        split_paragraphs_append short_paragraph_facts)

lemma sub_paragraphs_short_paragraphs:
  "0 < n \<Longrightarrow> sub_paragraphs (short_paragraphs n) = replicate (Suc n) short_paragraph"
  by (simp add: sub_paragraphs_def split_paragraphs_short_paragraphs strip_short_paragraph
      short_paragraph_facts)

lemma kept_positions_short: "kept_positions (replicate n short_paragraph) = []"
  by (simp add: kept_positions_def strip_short_paragraph short_paragraph_facts)

lemma split_terminators_short_paragraphs:
  "\<exists>rest. split_terminators (short_paragraphs n) = ''- tighten all bolts'' # rest"
proof -
  let ?xs = "''- tighten all bolts''"
  define tail where "tail = concat (replicate n (newline # newline # short_paragraph))"
  have t: "short_paragraphs n = ?xs @ ''.'' @ tail"
    by (simp add: short_paragraphs_def short_paragraph_def tail_def)
  have "takeWhile is_terminator tail = []"
    by (cases n) (simp_all add: tail_def is_terminator_def newline_def)
  then have d: "delim_terminators (''.'' @ tail) = length ''.''"
    by (simp add: delim_terminators_def is_terminator_def)
  have "split_by delim_terminators [] (?xs @ ''.'' @ tail)
      = (rev [] @ ?xs) # split_by delim_terminators [] tail"
    by (rule split_by_prefix [of is_terminator, OF delim_terminators_head _ d])
       (simp_all add: is_terminator_def)
  then show ?thesis by (simp add: split_terminators_def t)
qed

lemma sentence_hashes_short_paragraphs:
  "\<exists>sd sds. generate_sentence_hashes toy_digest (short_paragraphs n) = sd # sds \<and>
     sd_sentence_hash sd \<noteq> []"
proof -
  obtain rest where "split_terminators (short_paragraphs n) = ''- tighten all bolts'' # rest"
    using split_terminators_short_paragraphs by blast
  moreover have "strip ''- tighten all bolts'' = ''- tighten all bolts''"
    by (rule strip_plain) (simp_all add: is_space_def)
  ultimately show ?thesis
    by (simp add: generate_sentence_hashes_def toy_digest_def Let_def)
qed

text \<open>
  Claim C10, as amended. A sub-chunk has no \<open>sentence_hashes\<close> field. When the
  subdivision of a chunk keeps at least one piece, every chunk it returns is such a
  sub-chunk; when it keeps none, it returns the original chunk, sentence hashes
  included. \<open>add_document_chunks\<close> on chunks without the field leaves both
  sentence-level mappings as they were, and a document that has no entry in
  \<open>document_to_sentence_hashes\<close> is unknown to \<open>compare_documents_sentence_level\<close>.
\<close>

theorem sub_chunks_carry_no_sentence_hashes:
  assumes "c_text c = Some content" "c_metadata c = Some md"
    and "\<forall>x \<in> set cs. c_sentence_hashes x = None"
  shows "c_sentence_hashes (sub_chunk H md k para) = None \<and>
    (kept_positions (sub_paragraphs content) \<noteq> [] \<longrightarrow>
       (\<forall>x \<in> set (chunks_of (subdivide_large_section H c)). c_sentence_hashes x = None)) \<and>
    (kept_positions (sub_paragraphs content) = [] \<longrightarrow>
       chunks_of (subdivide_large_section H c) = [c]) \<and>
    sentence_hash_to_documents (maps (add_document_chunks d cs s))
      = sentence_hash_to_documents (maps s) \<and>
    document_to_sentence_hashes (maps (add_document_chunks d cs s))
      = document_to_sentence_hashes (maps s) \<and>
    (document_to_sentence_hashes (maps s) d = None \<longrightarrow>
       fst (compare_documents_sentence_level d e (add_document_chunks d cs s))
         = SentenceCompareError ''One or both documents not found'' \<and>
       fst (compare_documents_sentence_level e d (add_document_chunks d cs s))
         = SentenceCompareError ''One or both documents not found'')"
proof -
  have r: "chunks_of (subdivide_large_section H c) =
      (if kept_positions (sub_paragraphs content) = [] then [c]
       else map (\<lambda>k. sub_chunk H md k (sub_paragraphs content ! k))
              (kept_positions (sub_paragraphs content)))"
    by (simp add: subdivide_large_section_result [OF assms(1,2)] chunks_of_def)
  have m: "document_to_sentence_hashes (maps (add_document_chunks d cs s))
      = document_to_sentence_hashes (maps s)"
    by (rule add_document_chunks_no_sentences [OF assms(3)])
  have u: "fst (compare_documents_sentence_level d e (add_document_chunks d cs s))
         = SentenceCompareError ''One or both documents not found'' \<and>
       fst (compare_documents_sentence_level e d (add_document_chunks d cs s))
         = SentenceCompareError ''One or both documents not found''"
    if "document_to_sentence_hashes (maps s) d = None"
    using that m compare_documents_sentence_level_unknown [of "add_document_chunks d cs s" d e]
    by simp
  show ?thesis
    using r m u add_document_chunks_no_sentences(1) [OF assms(3), of d s]
    by auto
qed

theorem sub_chunks_carry_no_sentence_hashes_witness:
  "c_text demo_two_chunk = Some (two_paragraphs 40) \<and>
   c_metadata demo_two_chunk = Some demo_metadata \<and>
   kept_positions (sub_paragraphs (two_paragraphs 40)) = [0, 1] \<and>
   chunks_of (subdivide_large_section toy_digest demo_two_chunk)
     = [sub_chunk toy_digest demo_metadata 0 (stars 40),
        sub_chunk toy_digest demo_metadata 1 (stars 40)] \<and>
   list_all (\<lambda>x. c_sentence_hashes x = None)
     (chunks_of (subdivide_large_section toy_digest demo_two_chunk)) \<and>
   document_to_sentence_hashes (maps empty_service) ''A'' = None \<and>
   document_to_sentence_hashes
     (maps (add_document_chunks ''A''
        (chunks_of (subdivide_large_section toy_digest demo_two_chunk)) empty_service))
     = document_to_sentence_hashes (maps empty_service) \<and>
   fst (compare_documents_sentence_level ''A'' ''B''
     (add_document_chunks ''A''
        (chunks_of (subdivide_large_section toy_digest demo_two_chunk)) empty_service))
     = SentenceCompareError ''One or both documents not found''"
proof -
  let ?cs = "chunks_of (subdivide_large_section toy_digest demo_two_chunk)"
  have sp: "sub_paragraphs (two_paragraphs 40) = [stars 40, stars 40]"
    by (simp add: sub_paragraphs_two_paragraphs)
  have kp: "kept_positions (sub_paragraphs (two_paragraphs 40)) = [0, 1]"
    unfolding sp by (simp add: kept_positions_two)
  have "subdivide_large_section toy_digest demo_two_chunk =
      Inr (map (\<lambda>k. sub_chunk toy_digest demo_metadata k ([stars 40, stars 40] ! k)) [0, 1])"
    using subdivide_large_section_result [OF demo_two_chunk_fields, of toy_digest]
    unfolding kp unfolding sp by simp
  then have cs: "?cs = [sub_chunk toy_digest demo_metadata 0 (stars 40),
        sub_chunk toy_digest demo_metadata 1 (stars 40)]"
    by (simp add: chunks_of_def)
  have none: "\<forall>x \<in> set ?cs. c_sentence_hashes x = None"
    unfolding cs by simp
  have e: "document_to_sentence_hashes (maps empty_service) ''A'' = None"
    by (simp add: empty_service_def empty_maps_def)
  from sub_chunks_carry_no_sentence_hashes [OF demo_two_chunk_fields none,
      of toy_digest 0 "stars 40" "''A''" empty_service "''B''"] kp e
  have "document_to_sentence_hashes (maps (add_document_chunks ''A'' ?cs empty_service))
     = document_to_sentence_hashes (maps empty_service)"
    and "fst (compare_documents_sentence_level ''A'' ''B''
       (add_document_chunks ''A'' ?cs empty_service))
     = SentenceCompareError ''One or both documents not found''"
    by simp_all
  moreover have "list_all (\<lambda>x. c_sentence_hashes x = None) ?cs"
    using none by (simp only: list_all_iff)
  ultimately show ?thesis
    using demo_two_chunk_fields kp cs e by simp
qed

text \<open>A section of 2220 characters made of 101 paragraphs of 20 characters: no piece
  reaches 30 characters, the original chunk comes back, and its sentences are
  indexed.\<close>

theorem oversized_section_sentences_indexed_counterexample:
  "headerless (short_paragraphs 100) \<and>
   length (strip (short_paragraphs 100)) = 2220 \<and>
   chunks_of (create_section_chunks toy_digest (short_paragraphs 100) ''sop.txt'')
     = [section_chunk toy_digest ''sop.txt'' 0 (document_content_section (short_paragraphs 100))] \<and>
   c_sentence_hashes
       (section_chunk toy_digest ''sop.txt'' 0 (document_content_section (short_paragraphs 100)))
     \<noteq> None \<and>
   document_to_sentence_hashes
     (maps (add_document_chunks ''D''
        (chunks_of (create_section_chunks toy_digest (short_paragraphs 100) ''sop.txt''))
        empty_service)) ''D'' \<noteq> None"
proof -
  let ?t = "short_paragraphs 100"
  let ?c = "section_chunk toy_digest ''sop.txt'' 0 (document_content_section ?t)"
  have len: "length (strip ?t) = 2220"
    by (simp add: strip_short_paragraphs length_short_paragraphs)
  obtain md where md: "c_metadata ?c = Some md"
    by (simp add: section_chunk_def Let_def)
  have tx: "c_text ?c = Some ?t"
    by (simp add: document_content_section_def strip_short_paragraphs)
  have "create_section_chunks toy_digest ?t ''sop.txt'' = subdivide_large_section toy_digest ?c"
    using create_section_chunks_headerless [OF headerless_short_paragraphs, of toy_digest 100 "''sop.txt''"]
    by (simp add: len)
  also have "\<dots> = Inr [?c]"
    using subdivide_large_section_result [OF tx md, of toy_digest]
    by (simp add: sub_paragraphs_short_paragraphs kept_positions_short)
  finally have cs: "chunks_of (create_section_chunks toy_digest ?t ''sop.txt'') = [?c]"
    by (simp add: chunks_of_def)
  obtain sd sds where sh: "c_sentence_hashes ?c = Some (sd # sds)" "sd_sentence_hash sd \<noteq> []"
    using sentence_hashes_short_paragraphs [of 100]
    by (auto simp: document_content_section_def strip_short_paragraphs)
  have h: "c_content_hash ?c = Some (toy_digest (normalize_text ?t))"
    by (simp add: document_content_section_def strip_short_paragraphs generate_content_hash_def)
  have "maps (add_document_chunks ''D'' [?c] empty_service) =
      add_sentences ''D'' ?c
        (add_section ''D'' (toy_digest (normalize_text ?t)) (make_chunk_ref ''D'' ?c ?t)
           (maps empty_service))"
    using h tx by (simp add: maps_add_document_chunks toy_digest_def)
  then have "document_to_sentence_hashes (maps (add_document_chunks ''D'' [?c] empty_service)) ''D''
      \<noteq> None"
    using add_sentences_enters [OF sh] by simp
  with headerless_short_paragraphs [of 100] len cs sh(1) show ?thesis by simp
qed

section \<open>Further properties\<close>

subsection \<open>What removal does purge\<close>

lemma covered_empty: "covered empty_maps"
  by (simp add: covered_def empty_maps_def)

lemma covered_cong:
  "hash_to_documents m' = hash_to_documents m \<Longrightarrow> document_to_hashes m' = document_to_hashes m
   \<Longrightarrow> covered m' = covered m"
  by (simp add: covered_def)

lemma covered_add_section:
  assumes "covered m" "ref_document_name r = d"
  shows "covered (add_section d h r m)"
  unfolding covered_def
proof (intro allI impI ballI)
  fix h' refs x
  assume A: "hash_to_documents (add_section d h r m) h' = Some refs" and B: "x \<in> set refs"
  have old: "\<exists>hs. document_to_hashes (add_section d h r m) (ref_document_name x) = Some hs \<and> h' \<in> set hs"
    if "x \<in> set (dd_value (hash_to_documents m) h')"
  proof -
    from that obtain refs0 where "hash_to_documents m h' = Some refs0" "x \<in> set refs0"
      by (cases "hash_to_documents m h'") (auto simp: dd_value_def)
    with assms(1) obtain hs where hs: "document_to_hashes m (ref_document_name x) = Some hs"
      "h' \<in> set hs" unfolding covered_def by blast
    show ?thesis
    proof (cases "ref_document_name x = d")
      case True
      with hs show ?thesis by (simp add: add_section_def dd_value_def)
    next
      case False
      with hs show ?thesis by (simp add: add_section_def)
    qed
  qed
  show "\<exists>hs. document_to_hashes (add_section d h r m) (ref_document_name x) = Some hs \<and> h' \<in> set hs"
  proof (cases "h' = h")
    case True
    with A have "refs = dd_value (hash_to_documents m) h @ [r]" by (simp add: add_section_def)
    with B have "x \<in> set (dd_value (hash_to_documents m) h) \<or> x = r" by auto
    then show ?thesis
    proof
      assume "x \<in> set (dd_value (hash_to_documents m) h)"
      with True old show ?thesis by simp
    next
      assume "x = r"
      with True assms(2) show ?thesis by (simp add: add_section_def)
    qed
  next
    case False
    with A have "hash_to_documents m h' = Some refs" by (simp add: add_section_def)
    with B have "x \<in> set (dd_value (hash_to_documents m) h')" by (simp add: dd_value_def)
    then show ?thesis by (rule old)
  qed
qed

lemma covered_add_loop: "covered m \<Longrightarrow> covered (snd (add_loop d cs m))"
proof (induction cs arbitrary: m)
  case Nil
  then show ?case by simp
next
  case (Cons c cs)
  show ?case
  proof (cases "c_content_hash c")
    case None
    with Cons show ?thesis by simp
  next
    case (Some h)
    show ?thesis
    proof (cases "h = [] \<or> c_text c = None")
      case True
      with Some Cons show ?thesis by auto
    next
      case False
      then obtain t where t: "c_text c = Some t" and h: "h \<noteq> []" by auto
      have "covered (add_section d h (make_chunk_ref d c t) m)"
        by (rule covered_add_section [OF Cons.prems]) simp
      then have "covered (add_sentences d c (add_section d h (make_chunk_ref d c t) m))"
        using covered_cong [of "add_sentences d c (add_section d h (make_chunk_ref d c t) m)"
            "add_section d h (make_chunk_ref d c t) m"]
        by simp
      from Cons.IH [OF this] Some t h show ?thesis by simp
    qed
  qed
qed

lemma covered_h2d_touch:
  assumes "covered m"
    and "\<And>k. h2d k = hash_to_documents m k \<or> (hash_to_documents m k = None \<and> h2d k = Some [])"
  shows "covered (m\<lparr>hash_to_documents := h2d\<rparr>)"
  unfolding covered_def
proof (intro allI impI ballI)
  fix h refs r
  assume A: "hash_to_documents (m\<lparr>hash_to_documents := h2d\<rparr>) h = Some refs" and B: "r \<in> set refs"
  from A B assms(2) [of h] have "hash_to_documents m h = Some refs" by auto
  with assms(1) B show "\<exists>hs. document_to_hashes (m\<lparr>hash_to_documents := h2d\<rparr>) (ref_document_name r)
      = Some hs \<and> h \<in> set hs"
    unfolding covered_def by fastforce
qed

lemma dd_touch_cases: "dd_touch d k k' = d k' \<or> (d k' = None \<and> dd_touch d k k' = Some [])"
  by (auto simp: dd_touch_def split: option.splits)

lemma find_loop_touch:
  "snd (find_loop d hs h2d acc) k = h2d k \<or> (h2d k = None \<and> snd (find_loop d hs h2d acc) k = Some [])"
proof (induction hs arbitrary: h2d acc)
  case Nil
  then show ?case by simp
next
  case (Cons h hs)
  let ?acc = "if length (dd_value h2d h) > 1 \<and>
           filter (\<lambda>r. ref_document_name r \<noteq> d) (dd_value h2d h) \<noteq> []
        then acc @ [find_match d h (dd_value h2d h)] else acc"
  from Cons.IH [of "dd_touch h2d h" ?acc] dd_touch_cases [of h2d h k]
  show ?case by (simp only: find_loop_Cons) auto
qed

lemma compare_loop_Cons:
  "\<exists>acc'. compare_loop a b (h # hs) h2d acc = compare_loop a b hs (dd_touch h2d h) acc'"
  by (auto simp: Let_def split: option.splits)

lemma compare_loop_touch:
  "snd (compare_loop a b hs h2d acc) k = h2d k \<or>
   (h2d k = None \<and> snd (compare_loop a b hs h2d acc) k = Some [])"
proof (induction hs arbitrary: h2d acc)
  case Nil
  then show ?case by simp
next
  case (Cons h hs)
  obtain acc' where step:
    "compare_loop a b (h # hs) h2d acc = compare_loop a b hs (dd_touch h2d h) acc'"
    using compare_loop_Cons by blast
  from Cons.IH [of "dd_touch h2d h" acc'] dd_touch_cases [of h2d h k]
  show ?case unfolding step by auto
qed

lemma covered_find_exact_matches:
  assumes "covered (maps s)"
  shows "covered (maps (snd (find_exact_matches d s)))"
proof (cases "document_to_hashes (maps s) d")
  case None
  with assms show ?thesis by (simp add: find_exact_matches_def)
next
  case (Some hs)
  have "maps (snd (find_exact_matches d s)) =
      (maps s)\<lparr>hash_to_documents := snd (find_loop d hs (hash_to_documents (maps s)) [])\<rparr>"
    using Some by (simp add: find_exact_matches_def split: prod.splits del: find_loop.simps)
  then show ?thesis
    using covered_h2d_touch [OF assms, of "snd (find_loop d hs (hash_to_documents (maps s)) [])"]
      find_loop_touch by simp
qed

lemma covered_compare_documents_exact:
  assumes "covered (maps s)"
  shows "covered (maps (snd (compare_documents_exact a b s)))"
proof (cases "document_to_hashes (maps s) a")
  case None
  with assms show ?thesis by (simp add: compare_documents_exact_def)
next
  case A: (Some hs1)
  show ?thesis
  proof (cases "document_to_hashes (maps s) b")
    case None
    with A assms show ?thesis by (simp add: compare_documents_exact_def)
  next
    case (Some hs2)
    have "maps (snd (compare_documents_exact a b s)) =
      (maps s)\<lparr>hash_to_documents :=
         snd (compare_loop a b (set_intersection hs1 hs2) (hash_to_documents (maps s)) [])\<rparr>"
      using A Some by (simp add: compare_documents_exact_def Let_def split: prod.splits
          del: compare_loop.simps)
    then show ?thesis
      using covered_h2d_touch [OF assms,
          of "snd (compare_loop a b (set_intersection hs1 hs2) (hash_to_documents (maps s)) [])"]
        compare_loop_touch by simp
  qed
qed

text \<open>After \<open>remove_document\<close>, on covered mappings: no reference names the document.\<close>

lemma remove_document_refs:
  assumes "covered (maps s)" "hash_to_documents (maps (snd (remove_document d s))) h = Some refs"
    "r \<in> set refs" "document_to_hashes (maps s) d = Some hs"
  shows "ref_document_name r \<noteq> d \<and> hash_to_documents (maps s) h \<noteq> None \<and>
    r \<in> set (dd_value (hash_to_documents (maps s)) h)"
proof -
  let ?h2d = "fst (fold (remove_step d) hs (hash_to_documents (maps s), 0))"
  have look: "?h2d h = (if h \<in> set hs then
        (case hash_to_documents (maps s) h of None \<Rightarrow> None
         | Some refs \<Rightarrow> (let kept = filter (\<lambda>r. ref_document_name r \<noteq> d) refs in
                         if kept = [] then None else Some kept))
      else hash_to_documents (maps s) h)"
    by (rule fold_remove_step_lookup)
  from assms(2) have A: "?h2d h = Some refs"
    by (simp add: maps_remove_document [OF assms(4)])
  show ?thesis
  proof (cases "h \<in> set hs")
    case True
    with A look assms(3) show ?thesis
      by (auto simp: Let_def dd_value_def split: option.splits if_splits)
  next
    case False
    with A look have old: "hash_to_documents (maps s) h = Some refs" by simp
    with assms(1,3) obtain hs' where "document_to_hashes (maps s) (ref_document_name r) = Some hs'"
      "h \<in> set hs'" unfolding covered_def by blast
    with False assms(4) have "ref_document_name r \<noteq> d" by auto
    with old assms(3) show ?thesis by (simp add: dd_value_def)
  qed
qed

lemma covered_remove_document:
  assumes "covered (maps s)"
  shows "covered (maps (snd (remove_document d s)))"
proof (cases "document_to_hashes (maps s) d")
  case None
  with assms show ?thesis by (simp add: remove_document_def)
next
  case (Some hs)
  show ?thesis
    unfolding covered_def
  proof (intro allI impI ballI)
    fix h refs r
    assume A: "hash_to_documents (maps (snd (remove_document d s))) h = Some refs"
      and B: "r \<in> set refs"
    from remove_document_refs [OF assms A B Some]
    have ne: "ref_document_name r \<noteq> d" and old: "r \<in> set (dd_value (hash_to_documents (maps s)) h)"
      "hash_to_documents (maps s) h \<noteq> None" by simp_all
    from old obtain refs0 where "hash_to_documents (maps s) h = Some refs0" "r \<in> set refs0"
      by (auto simp: dd_value_def)
    with assms obtain hs' where "document_to_hashes (maps s) (ref_document_name r) = Some hs'"
      "h \<in> set hs'" unfolding covered_def by blast
    with ne show "\<exists>hs. document_to_hashes (maps (snd (remove_document d s))) (ref_document_name r)
        = Some hs \<and> h \<in> set hs"
      by (simp add: maps_remove_document [OF Some])
  qed
qed

lemma reachable_covered: "reachable s \<Longrightarrow> covered (maps s)"
proof (induction rule: reachable.induct)
  case reach_empty
  show ?case by (simp add: empty_service_def covered_empty)
next
  case (reach_add s document_name chunks)
  then show ?case by (simp add: maps_add_document_chunks covered_add_loop)
next
  case (reach_remove s document_name)
  from reach_remove.IH show ?case by (rule covered_remove_document)
next
  case (reach_find s document_name)
  from reach_find.IH show ?case by (rule covered_find_exact_matches)
next
  case (reach_compare s doc1_name doc2_name)
  from reach_compare.IH show ?case by (rule covered_compare_documents_exact)
next
  case (reach_compare_sentences s doc1_name doc2_name)
  from reach_compare_sentences.IH compare_documents_sentence_level_frame [of doc1_name doc2_name s]
    covered_cong [of "maps (snd (compare_documents_sentence_level doc1_name doc2_name s))" "maps s"]
  show ?case by blast
qed

text \<open>
  The part of removal that holds. In every index reached from the empty one,
  \<open>remove_document\<close> of an indexed document deletes its entry from \<open>document_to_hashes\<close>,
  leaves no reference naming it under any key of \<open>hash_to_documents\<close>, and
  \<open>find_exact_matches\<close> then returns the not-found payload.
\<close>

theorem remove_document_purges_section_maps:
  assumes "reachable s" "document_to_hashes (maps s) D = Some hs"
  shows "document_to_hashes (maps (snd (remove_document D s))) D = None \<and>
    (\<forall>h refs. hash_to_documents (maps (snd (remove_document D s))) h = Some refs \<longrightarrow>
       (\<forall>r \<in> set refs. ref_document_name r \<noteq> D)) \<and>
    fst (find_exact_matches D (snd (remove_document D s))) = FindError ''Document not found'' []"
proof -
  have d: "document_to_hashes (maps (snd (remove_document D s))) D = None"
    by (simp add: maps_remove_document [OF assms(2)])
  then have "fst (find_exact_matches D (snd (remove_document D s)))
      = FindError ''Document not found'' []"
    by (simp add: find_exact_matches_def)
  with d remove_document_refs [OF reachable_covered [OF assms(1)] _ _ assms(2)]
  show ?thesis by blast
qed

theorem remove_document_purges_section_maps_witness:
  "reachable demo_pair \<and> document_to_hashes (maps demo_pair) ''A'' = Some [''h1''] \<and>
   document_to_hashes (maps (snd (remove_document ''A'' demo_pair))) ''A'' = None \<and>
   map (map ref_document_name)
     (map (dd_value (hash_to_documents (maps (snd (remove_document ''A'' demo_pair)))))
        [''h1'', ''h2'']) = [[''B''], [''B'']] \<and>
   fst (find_exact_matches ''A'' (snd (remove_document ''A'' demo_pair)))
     = FindError ''Document not found'' []"
proof -
  have r: "reachable demo_pair"
    unfolding demo_pair_def demo_service_def by (intro reach_add reach_empty)
  have e: "map (map ref_document_name)
     (map (dd_value (hash_to_documents (maps (snd (remove_document ''A'' demo_pair)))))
        [''h1'', ''h2'']) = [[''B''], [''B'']]"
    by (simp add: index_defs)
  from remove_document_purges_section_maps [OF r demo_pair_A] r demo_pair_A e
  show ?thesis by simp
qed

subsection \<open>The chunk builder does not raise\<close>

lemma subdivide_large_section_Inr:
  "c_text c \<noteq> None \<Longrightarrow> c_metadata c \<noteq> None \<Longrightarrow> \<exists>r. subdivide_large_section H c = Inr r"
  by (auto simp: subdivide_large_section_def Let_def)

lemma refine_chunks_Inr:
  "\<forall>c \<in> set cs. c_text c \<noteq> None \<and> c_metadata c \<noteq> None \<Longrightarrow> \<exists>r. refine_chunks H cs = Inr r"
proof (induction cs)
  case Nil
  then show ?case by simp
next
  case (Cons c cs)
  then obtain r where r: "refine_chunks H cs = Inr r" by auto
  from Cons.prems obtain md where md: "c_metadata c = Some md" by auto
  from Cons.prems obtain subs where "subdivide_large_section H c = Inr subs"
    using subdivide_large_section_Inr [of c H] by auto
  with r md show ?case by simp
qed

lemma build_chunks_fields:
  "c \<in> set (build_chunks H f iss) \<Longrightarrow> c_text c \<noteq> None \<and> c_metadata c \<noteq> None"
  by (induction H f iss rule: build_chunks.induct)
     (auto simp: section_chunk_def Let_def split: if_splits)

text \<open>
  \<open>create_section_chunks\<close> returns a list of chunks for every text and file name: the
  chunks it builds carry the keys that the subdivision reads.
\<close>

theorem create_section_chunks_returns:
  "\<exists>cs. create_section_chunks H t filename = Inr cs"
  unfolding create_section_chunks_def
  by (rule refine_chunks_Inr) (simp add: build_chunks_fields)

subsection \<open>The pieces of a subdivision\<close>

text \<open>
  Subdividing a chunk cuts its text into pieces (the paragraphs
  between blank lines or, when there are fewer than two, packed sentences) and returns
  one sub-chunk for each piece of at least 30 characters, in order; when no piece is
  that long it returns the original chunk alone. So the result is never empty, and it
  may be a single sub-chunk. The piece at position \<open>k\<close> is at most one character longer
  than the original text; its sub-chunk holds the piece as text, the hash of the piece
  as content hash, and the sub-index made of the parent's index, a dot and \<open>k\<close>. The
  positions kept are increasing; those of short pieces are left out.
\<close>

theorem subdivide_large_section_pieces:
  assumes "c_text c = Some content" "c_metadata c = Some md" "ps = sub_paragraphs content"
  shows "subdivide_large_section H c =
      Inr (if kept_positions ps = [] then [c]
           else map (\<lambda>k. sub_chunk H md k (ps ! k)) (kept_positions ps)) \<and>
    chunks_of (subdivide_large_section H c) \<noteq> [] \<and>
    sorted_wrt (<) (kept_positions ps) \<and>
    (\<forall>k \<in> set (kept_positions ps).
       k < length ps \<and> 30 \<le> length (strip (ps ! k)) \<and>
       length (ps ! k) \<le> length content + 1 \<and>
       c_text (sub_chunk H md k (ps ! k)) = Some (ps ! k) \<and>
       c_content_hash (sub_chunk H md k (ps ! k)) = Some (generate_content_hash H (ps ! k)) \<and>
       map_option md_chunk_index (c_metadata (sub_chunk H md k (ps ! k)))
         = Some (StrIdx (str_of_index (md_chunk_index md) @ ''.'' @ str_of_nat k)))"
proof -
  have r: "subdivide_large_section H c =
      Inr (if kept_positions ps = [] then [c]
           else map (\<lambda>k. sub_chunk H md k (ps ! k)) (kept_positions ps))"
    unfolding assms(3) by (rule subdivide_large_section_result [OF assms(1,2)])
  then have ne: "chunks_of (subdivide_large_section H c) \<noteq> []"
    by (simp add: chunks_of_def)
  have len: "length (ps ! k) \<le> length content + 1" if "k < length ps" for k
    using that sub_paragraphs_length [of "ps ! k" content] assms(3) by simp
  show ?thesis
    using r ne kept_positions_sorted [of ps] len
    by (simp add: kept_positions_set)
qed

lemma second_sub_index: "str_of_index (IntIdx 0) @ CHR ''.'' # str_of_nat (Suc 0) = ''0.1''"
  by (simp add: str_of_index_def str_of_nat.simps char_of_def bit_Suc_0_iff)

text \<open>The section of 2202 characters made of two paragraphs of 1100 asterisks: the
  builder returns the sub-chunks \<open>0.0\<close> and \<open>0.1\<close>, one for each paragraph.\<close>

theorem subdivide_large_section_pieces_witness:
  "length (strip (two_paragraphs 1100)) = 2202 \<and>
   sub_paragraphs (two_paragraphs 1100) = [stars 1100, stars 1100] \<and>
   kept_positions [stars 1100, stars 1100] = [0, 1] \<and>
   map (\<lambda>c. (c_text c, c_content_hash c, map_option md_chunk_index (c_metadata c)))
     (chunks_of (create_section_chunks toy_digest (two_paragraphs 1100) ''sop.txt''))
     = [(Some (stars 1100), Some (generate_content_hash toy_digest (stars 1100)),
         Some (StrIdx ''0.0'')),
        (Some (stars 1100), Some (generate_content_hash toy_digest (stars 1100)),
         Some (StrIdx ''0.1''))]"
proof -
  let ?t = "two_paragraphs 1100"
  let ?c = "section_chunk toy_digest ''sop.txt'' 0 (document_content_section ?t)"
  have st: "strip ?t = ?t" by (rule strip_two_paragraphs) simp
  obtain md where md: "c_metadata ?c = Some md" and idx: "md_chunk_index md = IntIdx 0"
    by (simp add: section_chunk_def Let_def)
  have tx: "c_text ?c = Some ?t"
    by (simp add: document_content_section_def st)
  have ps: "[stars 1100, stars 1100] = sub_paragraphs ?t"
    by (simp add: sub_paragraphs_two_paragraphs)
  have kp: "kept_positions [stars 1100, stars 1100] = [0, 1]"
    by (simp add: kept_positions_two)
  have "create_section_chunks toy_digest ?t ''sop.txt'' = subdivide_large_section toy_digest ?c"
    using create_section_chunks_headerless [OF headerless_two_paragraphs, of toy_digest 1100 "''sop.txt''"]
    by (simp add: st)
  also from subdivide_large_section_pieces [OF tx md ps, of toy_digest]
  have "subdivide_large_section toy_digest ?c =
      Inr [sub_chunk toy_digest md 0 (stars 1100), sub_chunk toy_digest md 1 (stars 1100)]"
    unfolding kp by simp
  finally have "chunks_of (create_section_chunks toy_digest ?t ''sop.txt'')
      = [sub_chunk toy_digest md 0 (stars 1100), sub_chunk toy_digest md 1 (stars 1100)]"
    by (simp add: chunks_of_def)
  then show ?thesis
    using st ps kp idx by (simp add: first_sub_index second_sub_index)
qed


end
